theory Spec2Isabelle
  imports Complex_Main
begin

section \<open>The whiteboard component (src/App.tsx)\<close>

text \<open>
  The component keeps its state in React hooks and draws on one HTML canvas. A handler
  reads the hooks of the render it was created in (its closure) and queues updates on
  the current state; the canvas is reached through a ref and changes at once. So every
  handler that reads a hook takes two states: \<open>v\<close>, the state as it was at the last
  render, of which only the hooks are read, and \<open>s\<close>, the current state it updates. When
  React renders between two events is React's choice: a run is a list of events and
  renders. JavaScript numbers are taken as reals (no rounding, no NaN). The 2D context is
  the host's: its operations are written here after the HTML canvas and the compositing
  standards, on 8-bit premultiplied pixels, and the shape a stroke covers is a parameter
  of the model.
\<close>

subsection \<open>Pixels and bitmaps\<close>

record rgba =
  red :: nat
  green :: nat
  blue :: nat
  alpha :: nat

definition transparent :: rgba where
  "transparent = \<lparr>red = 0, green = 0, blue = 0, alpha = 0\<rparr>"

record bitmap =
  bwidth :: nat
  bheight :: nat
  pixels :: "nat \<Rightarrow> nat \<Rightarrow> rgba"

text \<open>A new canvas bitmap, and the bitmap after its width or height is assigned:
  transparent black everywhere.\<close>

definition blank :: "nat \<Rightarrow> nat \<Rightarrow> bitmap" where
  "blank w h = \<lparr>bwidth = w, bheight = h, pixels = (\<lambda>x y. transparent)\<rparr>"

text \<open>Reading a pixel the way the canvas does: outside the bitmap it is transparent
  black.\<close>

definition pixel_at :: "bitmap \<Rightarrow> nat \<Rightarrow> nat \<Rightarrow> rgba" where
  "pixel_at b x y = (if x < bwidth b \<and> y < bheight b then pixels b x y else transparent)"

subsection \<open>Compositing\<close>

datatype composite_op = SourceOver | DestinationOut

text \<open>The product of two 8-bit fractions, rounded to the nearest.\<close>

definition mul255 :: "nat \<Rightarrow> nat \<Rightarrow> nat" where
  "mul255 a b = (a * b + 127) div 255"

definition scale_px :: "nat \<Rightarrow> rgba \<Rightarrow> rgba" where
  "scale_px k p = \<lparr>red = mul255 (red p) k, green = mul255 (green p) k,
                   blue = mul255 (blue p) k, alpha = mul255 (alpha p) k\<rparr>"

text \<open>A colour as CSS gives it (channels not premultiplied) to a premultiplied pixel.\<close>

definition premultiply :: "rgba \<Rightarrow> rgba" where
  "premultiply c = \<lparr>red = mul255 (red c) (alpha c), green = mul255 (green c) (alpha c),
                    blue = mul255 (blue c) (alpha c), alpha = alpha c\<rparr>"

text \<open>source-over: \<open>co = cs + cd (1 - as)\<close>; destination-out: \<open>co = cd (1 - as)\<close>, on
  premultiplied channels, the alpha channel included.\<close>

definition source_over :: "rgba \<Rightarrow> rgba \<Rightarrow> rgba" where
  "source_over s d =
     \<lparr>red = red s + mul255 (red d) (255 - alpha s),
      green = green s + mul255 (green d) (255 - alpha s),
      blue = blue s + mul255 (blue d) (255 - alpha s),
      alpha = alpha s + mul255 (alpha d) (255 - alpha s)\<rparr>"

definition destination_out :: "rgba \<Rightarrow> rgba \<Rightarrow> rgba" where
  "destination_out s d = scale_px (255 - alpha s) d"

fun composite :: "composite_op \<Rightarrow> rgba \<Rightarrow> rgba \<Rightarrow> rgba" where
  "composite SourceOver s d = source_over s d"
| "composite DestinationOut s d = destination_out s d"

subsection \<open>The 2D context\<close>

datatype line_cap = Butt | RoundCap | Square
datatype line_join = Miter | RoundJoin | Bevel

text \<open>The drawing state of a context. The only transforms the component sets are
  \<open>setTransform(dpr, 0, 0, dpr, 0, 0)\<close>, so the transform is its scale factor.\<close>

record drawing_state =
  lineJoin :: line_join
  lineCap :: line_cap
  lineWidth :: real
  globalCompositeOperation :: composite_op
  strokeStyle :: rgba
  transform :: real

definition default_state :: drawing_state where
  "default_state = \<lparr>lineJoin = Miter, lineCap = Butt, lineWidth = 1,
     globalCompositeOperation = SourceOver,
     strokeStyle = \<lparr>red = 0, green = 0, blue = 0, alpha = 255\<rparr>, transform = 1\<rparr>"

record context2d =
  cur :: drawing_state
  stack :: "drawing_state list"

definition new_context :: context2d where
  "new_context = \<lparr>cur = default_state, stack = []\<rparr>"

definition save :: "context2d \<Rightarrow> context2d" where
  "save c = c\<lparr>stack := cur c # stack c\<rparr>"

text \<open>\<open>restore()\<close> with nothing saved does nothing.\<close>

definition restore :: "context2d \<Rightarrow> context2d" where
  "restore c = (case stack c of [] \<Rightarrow> c | d # ds \<Rightarrow> \<lparr>cur = d, stack = ds\<rparr>)"

text \<open>Assigning \<open>lineWidth\<close> ignores zero and negative values.\<close>

definition set_lineWidth :: "real \<Rightarrow> drawing_state \<Rightarrow> drawing_state" where
  "set_lineWidth v d = (if 0 < v then d\<lparr>lineWidth := v\<rparr> else d)"

type_synonym point = "real \<times> real"

text \<open>What decides the shape of a stroked segment: the transform, the line width, cap
  and join, and the two end points. The host's rasteriser maps it to a coverage, from 0
  (untouched) to 255 (wholly inside the stroke), for every device pixel; it is the
  parameter \<open>r\<close> of everything that draws.\<close>

record stroke_geom =
  g_transform :: real
  g_width :: real
  g_cap :: line_cap
  g_join :: line_join
  g_from :: point
  g_to :: point

type_synonym raster = "stroke_geom \<Rightarrow> nat \<Rightarrow> nat \<Rightarrow> nat"

definition geom :: "drawing_state \<Rightarrow> point \<Rightarrow> point \<Rightarrow> stroke_geom" where
  "geom d p q = \<lparr>g_transform = transform d, g_width = lineWidth d, g_cap = lineCap d,
                 g_join = lineJoin d, g_from = p, g_to = q\<rparr>"

text \<open>\<open>beginPath(); moveTo(p); lineTo(q); stroke()\<close>: every pixel of the bitmap is
  composited with the stroke colour weighted by the pixel's coverage.\<close>

definition stroke :: "raster \<Rightarrow> drawing_state \<Rightarrow> point \<Rightarrow> point \<Rightarrow> bitmap \<Rightarrow> bitmap" where
  "stroke r d p q b =
     b\<lparr>pixels := (\<lambda>x y.
          if x < bwidth b \<and> y < bheight b
          then composite (globalCompositeOperation d)
                 (scale_px (r (geom d p q) x y) (premultiply (strokeStyle d)))
                 (pixels b x y)
          else pixels b x y)\<rparr>"

datatype dom_error = IndexSizeError | InvalidStateError

text \<open>\<open>drawImage(img, dx, dy, dw, dh)\<close> on a context in state \<open>d\<close> with bitmap
  \<open>dst\<close>: the image is mapped onto the rectangle, the rectangle goes through the
  transform, and every device pixel whose centre falls inside takes the image pixel under
  it (smoothing between image pixels is not modelled; at the scale of one image pixel per
  device pixel there is none). An image with no pixels raises InvalidStateError.\<close>

definition drawImage ::
  "drawing_state \<Rightarrow> bitmap \<Rightarrow> real \<Rightarrow> real \<Rightarrow> real \<Rightarrow> real \<Rightarrow> bitmap \<Rightarrow> dom_error + bitmap" where
  "drawImage d img dx dy dw dh dst =
     (if bwidth img = 0 \<or> bheight img = 0 then Inl InvalidStateError
      else
        let k = transform d;
            x0 = dx * k; x1 = (dx + dw) * k;
            y0 = dy * k; y1 = (dy + dh) * k
        in Inr (dst\<lparr>pixels := (\<lambda>x y.
             if x < bwidth dst \<and> y < bheight dst
                \<and> x0 \<le> real x + 1/2 \<and> real x + 1/2 < x1
                \<and> y0 \<le> real y + 1/2 \<and> real y + 1/2 < y1
             then composite (globalCompositeOperation d)
                    (pixels img
                       (nat \<lfloor>(real x + 1/2 - x0) * real (bwidth img) / (x1 - x0)\<rfloor>)
                       (nat \<lfloor>(real y + 1/2 - y0) * real (bheight img) / (y1 - y0)\<rfloor>))
                    (pixels dst x y)
             else pixels dst x y)\<rparr>))"

text \<open>\<open>drawImage(img, dx, dy)\<close> draws the image at its own size.\<close>

definition drawImage3 :: "drawing_state \<Rightarrow> bitmap \<Rightarrow> real \<Rightarrow> real \<Rightarrow> bitmap \<Rightarrow> dom_error + bitmap" where
  "drawImage3 d img dx dy dst = drawImage d img dx dy (real (bwidth img)) (real (bheight img)) dst"

text \<open>\<open>clearRect(x, y, w, h)\<close>: the pixels whose centre is in the transformed rectangle
  become transparent black.\<close>

definition clearRect :: "drawing_state \<Rightarrow> real \<Rightarrow> real \<Rightarrow> real \<Rightarrow> real \<Rightarrow> bitmap \<Rightarrow> bitmap" where
  "clearRect d rx ry rw rh b =
     (let k = transform d in
      b\<lparr>pixels := (\<lambda>x y.
          if x < bwidth b \<and> y < bheight b
             \<and> rx * k \<le> real x + 1/2 \<and> real x + 1/2 < (rx + rw) * k
             \<and> ry * k \<le> real y + 1/2 \<and> real y + 1/2 < (ry + rh) * k
          then transparent else pixels b x y)\<rparr>)"

text \<open>\<open>getImageData(0, 0, w, h).data\<close> for the whole bitmap: the bytes R, G, B, A of every
  pixel, row after row, colours with the premultiplication undone. A bitmap with no
  pixels raises IndexSizeError.\<close>

definition imageData_byte :: "rgba \<Rightarrow> nat \<Rightarrow> nat" where
  "imageData_byte p k =
     (let unpremul = (\<lambda>c. if alpha p = 0 then 0 else min 255 ((c * 255 + alpha p div 2) div alpha p))
      in if k = 0 then unpremul (red p)
         else if k = 1 then unpremul (green p)
         else if k = 2 then unpremul (blue p)
         else alpha p)"

definition imageData :: "bitmap \<Rightarrow> nat list" where
  "imageData b =
     map (\<lambda>i. imageData_byte (pixels b ((i div 4) mod bwidth b) ((i div 4) div bwidth b)) (i mod 4))
       [0 ..< bwidth b * bheight b * 4]"

definition getImageData :: "bitmap \<Rightarrow> dom_error + nat list" where
  "getImageData b =
     (if bwidth b = 0 \<or> bheight b = 0 then Inl IndexSizeError else Inr (imageData b))"

subsection \<open>The component's state\<close>

datatype Tool = Pen | Eraser

record size2 =
  width :: real
  height :: real

text \<open>The canvas element: its bitmap and its 2D context. \<open>getContext("2d")\<close> on a
  canvas always gives this context, so \<open>getCtx()\<close> is missing exactly when
  \<open>canvasRef.current\<close> is.\<close>

record canvas_el =
  bmp :: bitmap
  ctx :: context2d

text \<open>The hooks of \<open>Whiteboard\<close>, and \<open>canvasRef.current\<close>. A colour string is kept as
  the colour the canvas parses it to; \<open>size_px\<close> is the hook \<open>size\<close>.\<close>

record whiteboard =
  tool :: Tool
  color :: rgba
  size_px :: real
  isDrawing :: bool
  lastPoint :: "point option"
  canvasSize :: size2
  dpr :: real
  canvas :: "canvas_el option"

text \<open>What a resize reads from outside: \<open>window.devicePixelRatio\<close> and the container's
  \<open>clientWidth\<close> (\<open>None\<close> when \<open>containerRef.current\<close> is missing).\<close>

record window_env =
  devicePixelRatio :: real
  clientWidth :: "int option"

text \<open>A pointer event: its client position and the canvas's bounding rectangle.\<close>

record pointer_ev =
  clientX :: real
  clientY :: real
  rect_left :: real
  rect_top :: real

subsection \<open>Handlers\<close>

definition clamp :: "real \<Rightarrow> real \<Rightarrow> real \<Rightarrow> real" where
  "clamp v mn mx = max mn (min mx v)"

definition handleResize :: "window_env \<Rightarrow> whiteboard \<Rightarrow> whiteboard" where
  "handleResize env s =
     (let pixelRatio = max (if devicePixelRatio env = 0 then 1 else devicePixelRatio env) 1;
          s1 = s\<lparr>dpr := pixelRatio\<rparr>
      in case clientWidth env of
           None \<Rightarrow> s1
         | Some cw \<Rightarrow>
             let paddingX = 32;
                 w = max 800 (real_of_int cw - paddingX)
             in s1\<lparr>canvasSize := \<lparr>width = w, height = height (canvasSize s1)\<rparr>\<rparr>)"

definition startDraw :: "pointer_ev \<Rightarrow> whiteboard \<Rightarrow> whiteboard" where
  "startDraw e s =
     (let x = clientX e - rect_left e;
          y = clientY e - rect_top e
      in s\<lparr>isDrawing := True, lastPoint := Some (x, y)\<rparr>)"

text \<open>The test reads \<open>canvasSize.height\<close> of the closure; the update is functional
  (\<open>prev.height + 1000\<close>) and works on the current state.\<close>

definition extendIfNeeded :: "whiteboard \<Rightarrow> real \<Rightarrow> whiteboard \<Rightarrow> whiteboard" where
  "extendIfNeeded v y s =
     (let threshold = 200 in
      if height (canvasSize v) - y < threshold
      then s\<lparr>canvasSize := (canvasSize s)\<lparr>height := height (canvasSize s) + 1000\<rparr>\<rparr>
      else s)"

text \<open>The drawing state \<open>drawLine\<close> has set when it calls \<open>stroke()\<close>: \<open>size\<close>, \<open>tool\<close> and
  \<open>color\<close> are those of the closure.\<close>

definition pen_state :: "whiteboard \<Rightarrow> drawing_state \<Rightarrow> drawing_state" where
  "pen_state v d =
     (let d1 = set_lineWidth (clamp (size_px v) 1 64) (d\<lparr>lineJoin := RoundJoin, lineCap := RoundCap\<rparr>)
      in if tool v = Eraser
         then d1\<lparr>globalCompositeOperation := DestinationOut,
                 strokeStyle := \<lparr>red = 0, green = 0, blue = 0, alpha = 255\<rparr>\<rparr>
         else d1\<lparr>globalCompositeOperation := SourceOver, strokeStyle := color v\<rparr>)"

text \<open>\<open>drawLine\<close> ends with \<open>ctx.restore()\<close>; its \<open>ctx.save()\<close> is commented out.\<close>

definition drawLine :: "whiteboard \<Rightarrow> raster \<Rightarrow> point \<Rightarrow> point \<Rightarrow> whiteboard \<Rightarrow> whiteboard" where
  "drawLine v r p q s =
     (case canvas s of
        None \<Rightarrow> s
      | Some c \<Rightarrow>
          let d = pen_state v (cur (ctx c))
          in s\<lparr>canvas := Some \<lparr>bmp = stroke r d p q (bmp c),
                                ctx = restore ((ctx c)\<lparr>cur := d\<rparr>)\<rparr>\<rparr>)"

text \<open>\<open>isDrawing\<close> and \<open>lastPoint\<close> are those of the closure.\<close>

definition onPointerMove :: "whiteboard \<Rightarrow> raster \<Rightarrow> pointer_ev \<Rightarrow> whiteboard \<Rightarrow> whiteboard" where
  "onPointerMove v r e s =
     (if \<not> isDrawing v then s
      else case lastPoint v of
        None \<Rightarrow> s
      | Some lp \<Rightarrow>
          let x = clientX e - rect_left e;
              y = clientY e - rect_top e
          in extendIfNeeded v y ((drawLine v r lp (x, y) s)\<lparr>lastPoint := Some (x, y)\<rparr>))"

definition endDrawUp :: "whiteboard \<Rightarrow> whiteboard" where
  "endDrawUp s = s\<lparr>isDrawing := False, lastPoint := None\<rparr>"

definition endDrawCancel :: "whiteboard \<Rightarrow> whiteboard" where
  "endDrawCancel s = s\<lparr>isDrawing := False, lastPoint := None\<rparr>"

definition endDrawLeave :: "whiteboard \<Rightarrow> whiteboard" where
  "endDrawLeave s = s\<lparr>isDrawing := False, lastPoint := None\<rparr>"

definition endDrawOut :: "whiteboard \<Rightarrow> whiteboard" where
  "endDrawOut s = s\<lparr>isDrawing := False, lastPoint := None\<rparr>"

text \<open>\<open>dpr\<close> is that of the closure.\<close>

definition handleClear :: "whiteboard \<Rightarrow> whiteboard \<Rightarrow> whiteboard" where
  "handleClear v s =
     (case canvas s of
        None \<Rightarrow> s
      | Some c \<Rightarrow>
          let c1 = save (ctx c);
              c2 = c1\<lparr>cur := (cur c1)\<lparr>transform := dpr v\<rparr>\<rparr>;
              b = clearRect (cur c2) 0 0 (real (bwidth (bmp c))) (real (bheight (bmp c))) (bmp c)
          in s\<lparr>canvas := Some \<lparr>bmp = b, ctx = restore c2\<rparr>\<rparr>)"

subsection \<open>Export\<close>

text \<open>\<open>a !== 0\<close> for \<open>a = imgData[i]\<close>: an index past the end reads \<open>undefined\<close>, which
  is not 0.\<close>

definition ink_at :: "nat list \<Rightarrow> nat \<Rightarrow> bool" where
  "ink_at imgData i = (if i < length imgData then imgData ! i \<noteq> 0 else True)"

text \<open>The inner loop, from column \<open>x\<close> on.\<close>

function rowHasInk :: "nat list \<Rightarrow> nat \<Rightarrow> nat \<Rightarrow> nat \<Rightarrow> bool" where
  "rowHasInk imgData rowStart w x =
     (if x < w
      then (if ink_at imgData (rowStart + x * 4 + 3) then True
            else rowHasInk imgData rowStart w (x + 1))
      else False)"
  by pat_completeness auto
termination
  by (relation "measure (\<lambda>(imgData, rowStart, w, x). w - x)") auto

declare rowHasInk.simps [simp del]

text \<open>The outer loop with \<open>n\<close> rows left to look at (\<open>y = n - 1\<close>); its value is
  \<open>lastNonEmptyY\<close>, which stays 0 when the loop finds nothing.\<close>

fun scanRows :: "nat list \<Rightarrow> nat \<Rightarrow> nat \<Rightarrow> nat" where
  "scanRows imgData w 0 = 0"
| "scanRows imgData w (Suc y) =
     (if rowHasInk imgData (y * w * 4) w 0 then y else scanRows imgData w y)"

text \<open>The export canvas as it is when \<open>toDataURL\<close> encodes it.\<close>

definition exportCanvas :: "bitmap \<Rightarrow> dom_error + bitmap" where
  "exportCanvas b =
     (let w = bwidth b; h = bheight b in
      case getImageData b of
        Inl e \<Rightarrow> Inl e
      | Inr imgData \<Rightarrow>
          let lastNonEmptyY = scanRows imgData w h
          in drawImage3 default_state b 0 0 (blank w (max 1 (lastNonEmptyY + 10))))"

datatype export_result = NoCanvas | Threw dom_error | Downloaded bitmap

definition handleExport :: "whiteboard \<Rightarrow> export_result" where
  "handleExport s =
     (case canvas s of
        None \<Rightarrow> NoCanvas
      | Some c \<Rightarrow> (case exportCanvas (bmp c) of Inl e \<Rightarrow> Threw e | Inr b \<Rightarrow> Downloaded b))"

subsection \<open>The effect that reinitialises the canvas\<close>

text \<open>Runs after a render in which \<open>canvasSize.width\<close>, \<open>canvasSize.height\<close> or \<open>dpr\<close>
  changed. Assigning \<open>canvas.width\<close> and \<open>canvas.height\<close> clears the bitmap and resets the
  context. The sizes are taken as naturals without the 32-bit limit of the attribute; the
  CSS size of the element (\<open>style.width\<close>, \<open>style.height\<close>) has no part in the bitmap and
  is left out.\<close>

definition reinit :: "whiteboard \<Rightarrow> dom_error + whiteboard" where
  "reinit s =
     (case canvas s of
        None \<Rightarrow> Inr s
      | Some c \<Rightarrow>
          (case drawImage3 default_state (bmp c) 0 0 (blank (bwidth (bmp c)) (bheight (bmp c))) of
             Inl e \<Rightarrow> Inl e
           | Inr prev \<Rightarrow>
               let fresh = blank (nat \<lfloor>width (canvasSize s) * dpr s\<rfloor>)
                                 (nat \<lfloor>height (canvasSize s) * dpr s\<rfloor>);
                   d = default_state\<lparr>transform := dpr s\<rparr>;
                   restored =
                     (if bwidth prev \<noteq> 0 \<and> bheight prev \<noteq> 0
                      then drawImage d prev 0 0 (real (bwidth prev) / dpr s)
                             (real (bheight prev) / dpr s) fresh
                      else Inr fresh)
               in (case restored of
                     Inl e \<Rightarrow> Inl e
                   | Inr b \<Rightarrow> Inr (s\<lparr>canvas := Some \<lparr>bmp = b, ctx = \<lparr>cur = d, stack = []\<rparr>\<rparr>\<rparr>))))"

subsection \<open>Events\<close>

datatype event =
    PointerDown pointer_ev
  | PointerMove pointer_ev
  | PointerUp
  | PointerCancel
  | PointerLeave
  | PointerOut
  | Resize window_env
  | ChooseTool Tool
  | ChooseColor rgba
  | ChooseSize real
  | Clear
  | Export

text \<open>The handler of an event, created in the render of \<open>v\<close>, run on the current
  state \<open>s\<close>.\<close>

fun handler :: "whiteboard \<Rightarrow> raster \<Rightarrow> event \<Rightarrow> whiteboard \<Rightarrow> whiteboard" where
  "handler v r (PointerDown e) s = startDraw e s"
| "handler v r (PointerMove e) s = onPointerMove v r e s"
| "handler v r PointerUp s = endDrawUp s"
| "handler v r PointerCancel s = endDrawCancel s"
| "handler v r PointerLeave s = endDrawLeave s"
| "handler v r PointerOut s = endDrawOut s"
| "handler v r (Resize env) s = handleResize env s"
| "handler v r (ChooseTool t) s = s\<lparr>tool := t\<rparr>"
| "handler v r (ChooseColor c) s = s\<lparr>color := c, tool := Pen\<rparr>"
| "handler v r (ChooseSize n) s = s\<lparr>size_px := n\<rparr>"
| "handler v r Clear s = handleClear v s"
| "handler v r Export s = s"

text \<open>The component between two events: \<open>view\<close> is the state of the last render, which
  the handlers read, and \<open>now\<close> the current state with the queued updates applied.\<close>

record component =
  view :: whiteboard
  now :: whiteboard

definition rendered :: "whiteboard \<Rightarrow> component" where
  "rendered s = \<lparr>view = s, now = s\<rparr>"

definition dispatch :: "raster \<Rightarrow> event \<Rightarrow> component \<Rightarrow> component" where
  "dispatch r ev c = c\<lparr>now := handler (view c) r ev (now c)\<rparr>"

text \<open>A render takes the current state, and runs the effect when one of its dependencies
  differs from the previous render's; the new handlers read the state of this render.\<close>

definition render :: "component \<Rightarrow> dom_error + component" where
  "render c =
     (let s' = now c in
      if width (canvasSize s') \<noteq> width (canvasSize (view c))
         \<or> height (canvasSize s') \<noteq> height (canvasSize (view c))
         \<or> dpr s' \<noteq> dpr (view c)
      then (case reinit s' of Inl e \<Rightarrow> Inl e | Inr s'' \<Rightarrow> Inr (rendered s''))
      else Inr (rendered s'))"

datatype action = Dispatch event | Render

fun act :: "raster \<Rightarrow> action \<Rightarrow> component \<Rightarrow> dom_error + component" where
  "act r (Dispatch ev) c = Inr (dispatch r ev c)"
| "act r Render c = render c"

fun play :: "raster \<Rightarrow> action list \<Rightarrow> component \<Rightarrow> dom_error + component" where
  "play r [] c = Inr c"
| "play r (a # as) c = (case act r a c of Inl e \<Rightarrow> Inl e | Inr c' \<Rightarrow> play r as c')"

text \<open>One event with a render on either side: the handler created in the render of \<open>s\<close>,
  the next render, and its effect.\<close>

definition step :: "raster \<Rightarrow> event \<Rightarrow> whiteboard \<Rightarrow> dom_error + whiteboard" where
  "step r ev s =
     (let s' = handler s r ev s in
      if width (canvasSize s') \<noteq> width (canvasSize s)
         \<or> height (canvasSize s') \<noteq> height (canvasSize s)
         \<or> dpr s' \<noteq> dpr s
      then reinit s' else Inr s')"

fun run :: "raster \<Rightarrow> event list \<Rightarrow> whiteboard \<Rightarrow> dom_error + whiteboard" where
  "run r [] s = Inr s"
| "run r (ev # evs) s = (case step r ev s of Inl e \<Rightarrow> Inl e | Inr s' \<Rightarrow> run r evs s')"

subsection \<open>Notions used in the statements\<close>

text \<open>A row has ink when one of its pixels has a non-zero alpha; the bottom ink row is
  the ink row with no ink row below it.\<close>

definition row_has_ink :: "bitmap \<Rightarrow> nat \<Rightarrow> bool" where
  "row_has_ink b y = list_ex (\<lambda>x. alpha (pixels b x y) \<noteq> 0) [0 ..< bwidth b]"

definition has_ink :: "bitmap \<Rightarrow> bool" where
  "has_ink b = list_ex (row_has_ink b) [0 ..< bheight b]"

definition bottom_ink :: "bitmap \<Rightarrow> nat \<Rightarrow> bool" where
  "bottom_ink b y =
     (y < bheight b \<and> row_has_ink b y \<and> list_all (\<lambda>y'. \<not> row_has_ink b y') [Suc y ..< bheight b])"

text \<open>The canvas, when there is one, has pixels.\<close>

definition usable :: "whiteboard \<Rightarrow> bool" where
  "usable s = (case canvas s of None \<Rightarrow> True
               | Some c \<Rightarrow> bwidth (bmp c) \<noteq> 0 \<and> bheight (bmp c) \<noteq> 0)"

text \<open>The hooks at their initial values around a given bitmap, a bitmap with one opaque
  pixel, and the pixel of the canvas after a step.\<close>

definition board :: "bitmap \<Rightarrow> whiteboard" where
  "board b = \<lparr>tool = Pen, color = \<lparr>red = 17, green = 24, blue = 39, alpha = 255\<rparr>,
     size_px = 4, isDrawing = False, lastPoint = None,
     canvasSize = \<lparr>width = 1600, height = 1400\<rparr>, dpr = 1,
     canvas = Some \<lparr>bmp = b, ctx = new_context\<rparr>\<rparr>"

definition opaque_black :: rgba where
  "opaque_black = \<lparr>red = 0, green = 0, blue = 0, alpha = 255\<rparr>"

definition dot_bitmap :: "nat \<Rightarrow> nat \<Rightarrow> nat \<Rightarrow> nat \<Rightarrow> bitmap" where
  "dot_bitmap w h px py =
     \<lparr>bwidth = w, bheight = h,
      pixels = (\<lambda>x y. if x = px \<and> y = py then opaque_black else transparent)\<rparr>"

definition export_height :: "whiteboard \<Rightarrow> nat option" where
  "export_height s = (case handleExport s of Downloaded e \<Rightarrow> Some (bheight e) | _ \<Rightarrow> None)"

definition pixel_after :: "dom_error + whiteboard \<Rightarrow> nat \<Rightarrow> nat \<Rightarrow> rgba option" where
  "pixel_after res x y =
     (case res of
        Inl e \<Rightarrow> None
      | Inr s \<Rightarrow> (case canvas s of None \<Rightarrow> None | Some c \<Rightarrow> Some (pixel_at (bmp c) x y)))"

text \<open>The sizes the component keeps: a logical size of at least 1 by 1, a scale factor
  of at least 1 and a canvas with pixels.\<close>

definition well_sized :: "whiteboard \<Rightarrow> bool" where
  "well_sized s =
     (1 \<le> width (canvasSize s) \<and> 1 \<le> height (canvasSize s) \<and> 1 \<le> dpr s \<and> usable s)"

text \<open>The events that end a stroke session, and those that are a move or end one.\<close>

fun is_end :: "event \<Rightarrow> bool" where
  "is_end PointerUp = True"
| "is_end PointerCancel = True"
| "is_end PointerLeave = True"
| "is_end PointerOut = True"
| "is_end ev = False"

fun is_move_or_end :: "event \<Rightarrow> bool" where
  "is_move_or_end (PointerMove e) = True"
| "is_move_or_end ev = is_end ev"

text \<open>A pointer event at \<open>(x, y)\<close> of a canvas whose rectangle starts at the origin.\<close>

definition pointer_at :: "real \<Rightarrow> real \<Rightarrow> pointer_ev" where
  "pointer_at x y = \<lparr>clientX = x, clientY = y, rect_left = 0, rect_top = 0\<rparr>"

text \<open>The alpha of a canvas pixel, and a context with nothing saved (as it is after the
  canvas is reinitialised, and as \<open>drawLine\<close> and \<open>handleClear\<close> leave it).\<close>

definition canvas_alpha :: "whiteboard \<Rightarrow> nat \<Rightarrow> nat \<Rightarrow> nat option" where
  "canvas_alpha s x y =
     (case canvas s of None \<Rightarrow> None | Some c \<Rightarrow> Some (alpha (pixel_at (bmp c) x y)))"

definition balanced :: "whiteboard \<Rightarrow> bool" where
  "balanced s = (case canvas s of None \<Rightarrow> True | Some c \<Rightarrow> stack (ctx c) = [])"

text \<open>The rasteriser that gives every pixel the same coverage.\<close>

definition cover :: "nat \<Rightarrow> raster" where
  "cover k g x y = k"



text \<open>The logical height after a run, and whether a canvas pixel has ink (a non-zero
  alpha), in a state and after a run.\<close>

definition height_after :: "dom_error + component \<Rightarrow> real option" where
  "height_after res =
     (case res of Inl e \<Rightarrow> None | Inr c \<Rightarrow> Some (height (canvasSize (now c))))"

definition inked :: "whiteboard \<Rightarrow> nat \<Rightarrow> nat \<Rightarrow> bool" where
  "inked s x y =
     (case canvas s of None \<Rightarrow> False | Some c \<Rightarrow> alpha (pixel_at (bmp c) x y) \<noteq> 0)"


text \<open>The geometry \<open>drawLine\<close> strokes for the segment from \<open>p\<close> to \<open>q\<close> under the
  transform \<open>t\<close>: the clamped size of the closure, round cap and join.\<close>

definition seg_geom :: "whiteboard \<Rightarrow> real \<Rightarrow> point \<Rightarrow> point \<Rightarrow> stroke_geom" where
  "seg_geom v t p q =
     \<lparr>g_transform = t, g_width = clamp (size_px v) 1 64, g_cap = RoundCap,
      g_join = RoundJoin, g_from = p, g_to = q\<rparr>"

text \<open>A stroke along the path \<open>p, q1, ..., qn\<close>: the calls of \<open>drawLine\<close> that the moves
  of one session make, each from the last point to the next, all with the tool, colour
  and size of \<open>v\<close>. A pixel is wholly covered by the stroke when one of its segments
  covers it with coverage 255.\<close>

fun drawPath :: "whiteboard \<Rightarrow> raster \<Rightarrow> point \<Rightarrow> point list \<Rightarrow> whiteboard \<Rightarrow> whiteboard" where
  "drawPath v r p [] s = s"
| "drawPath v r p (q # qs) s = drawPath v r q qs (drawLine v r p q s)"

fun segments :: "point \<Rightarrow> point list \<Rightarrow> (point \<times> point) list" where
  "segments p [] = []"
| "segments p (q # qs) = (p, q) # segments q qs"

definition wholly_covered ::
  "raster \<Rightarrow> whiteboard \<Rightarrow> real \<Rightarrow> point \<Rightarrow> point list \<Rightarrow> nat \<Rightarrow> nat \<Rightarrow> bool" where
  "wholly_covered r v t p qs x y =
     list_ex (\<lambda>(a, b). r (seg_geom v t a b) x y = 255) (segments p qs)"

text \<open>A rasteriser for horizontal segments: the coverage of a pixel is the share of its
  square that lies in the rectangle of the stroke (the segment widened by half the line
  width on either side, the caps left out), in 255ths, rounded to the nearest. A line of
  width 1 along a pixel boundary covers the pixels on either side by half.\<close>

definition overlap :: "real \<Rightarrow> real \<Rightarrow> real \<Rightarrow> real \<Rightarrow> real" where
  "overlap a b c d = max 0 (min b d - max a c)"

definition band_raster :: raster where
  "band_raster g x y =
     (let k = g_transform g;
          hw = g_width g / 2;
          x0 = min (fst (g_from g)) (fst (g_to g));
          x1 = max (fst (g_from g)) (fst (g_to g));
          yc = snd (g_from g)
      in if snd (g_to g) = yc
         then nat \<lfloor>255 * overlap (real x) (real x + 1) (x0 * k) (x1 * k)
                       * overlap (real y) (real y + 1) ((yc - hw) * k) ((yc + hw) * k) + 1/2\<rfloor>
         else 0)"


section \<open>Auxiliary facts\<close>

subsection \<open>Copying a bitmap\<close>

lemma mul255_0 [simp]: "mul255 0 k = 0" "mul255 k 0 = 0"
  by (simp_all add: mul255_def)

lemma mul255_255 [simp]: "mul255 255 k = k" "mul255 k 255 = k"
  by (simp_all add: mul255_def)

lemma source_over_transparent [simp]: "source_over p transparent = p"
  by (simp add: source_over_def transparent_def)

lemma floor_half: "\<lfloor>real n + 1/2\<rfloor> = int n"
  by linarith

lemma drawImage_unit:
  assumes nz: "bwidth img \<noteq> 0" "bheight img \<noteq> 0"
    and w: "dw * transform d = real (bwidth img)" and h: "dh * transform d = real (bheight img)"
  shows "drawImage d img 0 0 dw dh dst =
     Inr (dst\<lparr>pixels := (\<lambda>x y.
        if x < bwidth dst \<and> y < bheight dst \<and> x < bwidth img \<and> y < bheight img
        then composite (globalCompositeOperation d) (pixels img x y) (pixels dst x y)
        else pixels dst x y)\<rparr>)"
proof -
  have fx: "nat \<lfloor>(real x + 1/2) * real (bwidth img) / real (bwidth img)\<rfloor> = x" for x
    using nz(1) by (simp add: floor_half)
  have fy: "nat \<lfloor>(real y + 1/2) * real (bheight img) / real (bheight img)\<rfloor> = y" for y
    using nz(2) by (simp add: floor_half)
  have lx: "real x + 1/2 < real (bwidth img) \<longleftrightarrow> x < bwidth img" for x
    by linarith
  have ly: "real y + 1/2 < real (bheight img) \<longleftrightarrow> y < bheight img" for y
    by linarith
  have px: "(0::real) \<le> real x + 1/2" for x by simp
  show ?thesis
    unfolding drawImage_def Let_def using nz
    by (simp add: w h fx fy lx ly px del: of_nat_add cong: if_cong)
qed

lemma drawImage_Inr:
  assumes "bwidth img \<noteq> 0" "bheight img \<noteq> 0"
  shows "\<exists>f. drawImage d img dx dy dw dh dst = Inr (dst\<lparr>pixels := f\<rparr>)"
  using assms unfolding drawImage_def Let_def by auto

lemma drawImage3_copy:
  assumes "bwidth b \<noteq> 0" "bheight b \<noteq> 0"
  shows "drawImage3 default_state b 0 0 (blank (bwidth b) (bheight b)) =
     Inr \<lparr>bwidth = bwidth b, bheight = bheight b,
          pixels = (\<lambda>x y. if x < bwidth b \<and> y < bheight b then pixels b x y else transparent)\<rparr>"
proof -
  have one: "real (bwidth b) * transform default_state = real (bwidth b)"
    "real (bheight b) * transform default_state = real (bheight b)"
    by (simp_all add: default_state_def)
  have gco: "globalCompositeOperation default_state = SourceOver"
    by (simp add: default_state_def)
  show ?thesis
    unfolding drawImage3_def drawImage_unit [OF assms one] gco
    by (auto simp: blank_def fun_eq_iff)
qed

subsection \<open>The scan of the export\<close>

lemma row_has_ink_iff: "row_has_ink b y \<longleftrightarrow> (\<exists>x<bwidth b. alpha (pixels b x y) \<noteq> 0)"
  by (auto simp: row_has_ink_def list_ex_iff)

lemma rowHasInk_iff:
  "rowHasInk d rs w x \<longleftrightarrow> (\<exists>x'. x \<le> x' \<and> x' < w \<and> ink_at d (rs + x' * 4 + 3))"
proof (induction d rs w x rule: rowHasInk.induct)
  case (1 d rs w x)
  show ?case
  proof (cases "x < w")
    case False
    then show ?thesis by (simp add: rowHasInk.simps [of d rs w x])
  next
    case True
    show ?thesis
    proof (cases "ink_at d (rs + x * 4 + 3)")
      case ink: True
      with True show ?thesis by (auto simp: rowHasInk.simps [of d rs w x])
    next
      case noink: False
      have "rowHasInk d rs w x = rowHasInk d rs w (x + 1)"
        using True noink by (simp add: rowHasInk.simps [of d rs w x])
      also have "\<dots> \<longleftrightarrow> (\<exists>x'. x + 1 \<le> x' \<and> x' < w \<and> ink_at d (rs + x' * 4 + 3))"
        using "1.IH" True noink by simp
      also have "\<dots> \<longleftrightarrow> (\<exists>x'. x \<le> x' \<and> x' < w \<and> ink_at d (rs + x' * 4 + 3))"
      proof
        assume "\<exists>x'. x + 1 \<le> x' \<and> x' < w \<and> ink_at d (rs + x' * 4 + 3)"
        then obtain x' where "x + 1 \<le> x'" "x' < w" "ink_at d (rs + x' * 4 + 3)" by blast
        then show "\<exists>x'. x \<le> x' \<and> x' < w \<and> ink_at d (rs + x' * 4 + 3)"
          by (intro exI [of _ x']) simp
      next
        assume "\<exists>x'. x \<le> x' \<and> x' < w \<and> ink_at d (rs + x' * 4 + 3)"
        then obtain x' where x': "x \<le> x'" "x' < w" "ink_at d (rs + x' * 4 + 3)" by blast
        with noink have "x' \<noteq> x" by auto
        with x' show "\<exists>x'. x + 1 \<le> x' \<and> x' < w \<and> ink_at d (rs + x' * 4 + 3)"
          by (intro exI [of _ x']) simp
      qed
      finally show ?thesis .
    qed
  qed
qed

lemma imageData_length: "length (imageData b) = bwidth b * bheight b * 4"
  by (simp add: imageData_def)

lemma imageData_index:
  assumes "x < bwidth b" "y < bheight b"
  shows "y * bwidth b * 4 + x * 4 + 3 < bwidth b * bheight b * 4"
proof -
  have "y * bwidth b + x < bwidth b * bheight b"
  proof -
    have "y * bwidth b + x < y * bwidth b + bwidth b" using assms(1) by simp
    also have "\<dots> = Suc y * bwidth b" by simp
    also have "\<dots> \<le> bheight b * bwidth b" using assms(2) by (intro mult_le_mono1) simp
    finally show ?thesis by (simp add: mult.commute)
  qed
  then show ?thesis by simp
qed

lemma imageData_alpha:
  assumes "x < bwidth b" "y < bheight b"
  shows "imageData b ! (y * bwidth b * 4 + x * 4 + 3) = alpha (pixels b x y)"
proof -
  let ?i = "y * bwidth b * 4 + x * 4 + 3"
  define k where "k = y * bwidth b + x"
  have i: "?i = k * 4 + 3" by (simp add: k_def)
  have "(k * 4 + 3) div 4 = k" "(k * 4 + 3) mod 4 = 3" by presburger+
  then have d: "?i div 4 = y * bwidth b + x" and m: "?i mod 4 = 3"
    unfolding i by (simp_all only: k_def)
  have "imageData b ! ?i = imageData_byte (pixels b ((?i div 4) mod bwidth b) ((?i div 4) div bwidth b)) (?i mod 4)"
    unfolding imageData_def using imageData_index [OF assms] by (simp del: One_nat_def)
  also have "\<dots> = imageData_byte (pixels b x y) 3"
    unfolding d m using assms(1) by simp
  finally show ?thesis by (simp add: imageData_byte_def)
qed

lemma ink_at_imageData:
  assumes "x < bwidth b" "y < bheight b"
  shows "ink_at (imageData b) (y * bwidth b * 4 + x * 4 + 3) \<longleftrightarrow> alpha (pixels b x y) \<noteq> 0"
  using imageData_index [OF assms] imageData_alpha [OF assms]
  by (simp add: ink_at_def imageData_length)

lemma rowHasInk_imageData:
  assumes "y < bheight b"
  shows "rowHasInk (imageData b) (y * bwidth b * 4) (bwidth b) 0 \<longleftrightarrow> row_has_ink b y"
  unfolding rowHasInk_iff row_has_ink_iff using ink_at_imageData [OF _ assms] by auto

lemma has_ink_iff: "has_ink b \<longleftrightarrow> (\<exists>y<bheight b. row_has_ink b y)"
  by (auto simp: has_ink_def list_ex_iff)

lemma bottom_ink_iff:
  "bottom_ink b y \<longleftrightarrow>
     y < bheight b \<and> row_has_ink b y \<and> (\<forall>y'. y < y' \<and> y' < bheight b \<longrightarrow> \<not> row_has_ink b y')"
  by (auto simp: bottom_ink_def list_all_iff)

lemma bottom_ink_unique:
  assumes "bottom_ink b y" "bottom_ink b y'"
  shows "y = y'"
proof (rule ccontr)
  assume "y \<noteq> y'"
  then consider "y < y'" | "y' < y" by linarith
  then show False
    using assms unfolding bottom_ink_iff by cases blast+
qed

lemma scanRows_imageData:
  assumes "n \<le> bheight b"
  shows "if \<exists>y<n. row_has_ink b y
         then scanRows (imageData b) (bwidth b) n < n
              \<and> row_has_ink b (scanRows (imageData b) (bwidth b) n)
              \<and> (\<forall>y'. scanRows (imageData b) (bwidth b) n < y' \<and> y' < n \<longrightarrow> \<not> row_has_ink b y')
         else scanRows (imageData b) (bwidth b) n = 0"
  using assms
proof (induction n)
  case 0
  then show ?case by simp
next
  case (Suc n)
  then have n: "n < bheight b" and IH: "if \<exists>y<n. row_has_ink b y
         then scanRows (imageData b) (bwidth b) n < n
              \<and> row_has_ink b (scanRows (imageData b) (bwidth b) n)
              \<and> (\<forall>y'. scanRows (imageData b) (bwidth b) n < y' \<and> y' < n \<longrightarrow> \<not> row_has_ink b y')
         else scanRows (imageData b) (bwidth b) n = 0"
    by simp_all
  show ?case
  proof (cases "row_has_ink b n")
    case True
    then have "scanRows (imageData b) (bwidth b) (Suc n) = n"
      using rowHasInk_imageData [OF n] by simp
    with True show ?thesis by auto
  next
    case False
    then have eq: "scanRows (imageData b) (bwidth b) (Suc n) = scanRows (imageData b) (bwidth b) n"
      using rowHasInk_imageData [OF n] by simp
    have ex: "(\<exists>y<Suc n. row_has_ink b y) \<longleftrightarrow> (\<exists>y<n. row_has_ink b y)"
      using False less_Suc_eq by auto
    show ?thesis
    proof (cases "\<exists>y<n. row_has_ink b y")
      case True
      with IH have *: "scanRows (imageData b) (bwidth b) n < n"
        "row_has_ink b (scanRows (imageData b) (bwidth b) n)"
        "\<forall>y'. scanRows (imageData b) (bwidth b) n < y' \<and> y' < n \<longrightarrow> \<not> row_has_ink b y'"
        by simp_all
      have "\<forall>y'. scanRows (imageData b) (bwidth b) n < y' \<and> y' < Suc n \<longrightarrow> \<not> row_has_ink b y'"
        using *(3) False less_Suc_eq by auto
      with * True show ?thesis unfolding eq ex by simp
    next
      case none: False
      with IH have "scanRows (imageData b) (bwidth b) n = 0" by simp
      with none show ?thesis unfolding eq ex by auto
    qed
  qed
qed

lemma scanRows_bottom_ink:
  assumes "has_ink b"
  shows "bottom_ink b (scanRows (imageData b) (bwidth b) (bheight b))"
  using scanRows_imageData [of "bheight b" b] assms
  unfolding has_ink_iff bottom_ink_iff by simp

lemma scanRows_no_ink:
  assumes "\<not> has_ink b"
  shows "scanRows (imageData b) (bwidth b) (bheight b) = 0"
  using scanRows_imageData [of "bheight b" b] assms
  unfolding has_ink_iff by simp

lemma scanRows_eq_bottom:
  assumes "bottom_ink b y"
  shows "scanRows (imageData b) (bwidth b) (bheight b) = y"
proof -
  have "has_ink b" using assms unfolding has_ink_iff bottom_ink_iff by blast
  then show ?thesis using scanRows_bottom_ink bottom_ink_unique assms by blast
qed

lemma exportCanvas_eq:
  assumes "bwidth b \<noteq> 0" "bheight b \<noteq> 0"
  shows "exportCanvas b =
     Inr \<lparr>bwidth = bwidth b,
          bheight = max 1 (scanRows (imageData b) (bwidth b) (bheight b) + 10),
          pixels = (\<lambda>x y. if x < bwidth b
                             \<and> y < max 1 (scanRows (imageData b) (bwidth b) (bheight b) + 10)
                             \<and> y < bheight b
                          then pixels b x y else transparent)\<rparr>"
proof -
  have one: "real (bwidth b) * transform default_state = real (bwidth b)"
    "real (bheight b) * transform default_state = real (bheight b)"
    by (simp_all add: default_state_def)
  have gco: "globalCompositeOperation default_state = SourceOver"
    by (simp add: default_state_def)
  show ?thesis
    unfolding exportCanvas_def getImageData_def Let_def drawImage3_def
      drawImage_unit [OF assms one] gco
    using assms by (simp add: blank_def conj_commute conj_left_commute cong: if_cong)
qed

lemma handleExport_eq:
  assumes "canvas s = Some c" "bwidth (bmp c) \<noteq> 0" "bheight (bmp c) \<noteq> 0"
  shows "handleExport s =
     Downloaded \<lparr>bwidth = bwidth (bmp c),
          bheight = max 1 (scanRows (imageData (bmp c)) (bwidth (bmp c)) (bheight (bmp c)) + 10),
          pixels = (\<lambda>x y. if x < bwidth (bmp c)
                \<and> y < max 1 (scanRows (imageData (bmp c)) (bwidth (bmp c)) (bheight (bmp c)) + 10)
                \<and> y < bheight (bmp c)
             then pixels (bmp c) x y else transparent)\<rparr>"
  unfolding handleExport_def using assms(1) by (simp add: exportCanvas_eq [OF assms(2,3)])

subsection \<open>The effect\<close>

lemma reinit_usable:
  assumes "usable s"
  shows "\<exists>c. reinit s = Inr (s\<lparr>canvas := c\<rparr>)"
proof (cases "canvas s")
  case None
  then have "reinit s = Inr (s\<lparr>canvas := None\<rparr>)" by (simp add: reinit_def)
  then show ?thesis by blast
next
  case (Some c)
  with assms have nz: "bwidth (bmp c) \<noteq> 0" "bheight (bmp c) \<noteq> 0" by (simp_all add: usable_def)
  obtain f where prev: "drawImage3 default_state (bmp c) 0 0 (blank (bwidth (bmp c)) (bheight (bmp c)))
      = Inr ((blank (bwidth (bmp c)) (bheight (bmp c)))\<lparr>pixels := f\<rparr>)"
    unfolding drawImage3_def using drawImage_Inr [OF nz] by blast
  let ?prev = "(blank (bwidth (bmp c)) (bheight (bmp c)))\<lparr>pixels := f\<rparr>"
  have pnz: "bwidth ?prev \<noteq> 0" "bheight ?prev \<noteq> 0" using nz by (simp_all add: blank_def)
  obtain g where "drawImage (default_state\<lparr>transform := dpr s\<rparr>) ?prev 0 0 (real (bwidth ?prev) / dpr s)
                             (real (bheight ?prev) / dpr s) (blank (nat \<lfloor>width (canvasSize s) * dpr s\<rfloor>)
                                 (nat \<lfloor>height (canvasSize s) * dpr s\<rfloor>)) = Inr g"
    using drawImage_Inr [OF pnz] by blast
  then show ?thesis using Some prev pnz
    by (simp add: reinit_def Let_def del: bitmap.simps) blast
qed

lemma reinit_fields:
  "reinit s = Inr s' \<Longrightarrow> canvasSize s' = canvasSize s \<and> dpr s' = dpr s \<and> isDrawing s' = isDrawing s
      \<and> lastPoint s' = lastPoint s \<and> tool s' = tool s \<and> color s' = color s \<and> size_px s' = size_px s"
  by (auto simp: reinit_def Let_def split: option.splits sum.splits if_splits)

lemma reinit_eq:
  assumes c: "canvas s = Some c" and nz: "bwidth (bmp c) \<noteq> 0" "bheight (bmp c) \<noteq> 0"
    and k: "dpr s \<noteq> 0"
  shows "reinit s =
     Inr (s\<lparr>canvas := Some
        \<lparr>bmp = \<lparr>bwidth = nat \<lfloor>width (canvasSize s) * dpr s\<rfloor>,
                 bheight = nat \<lfloor>height (canvasSize s) * dpr s\<rfloor>,
                 pixels = (\<lambda>x y.
                    if x < nat \<lfloor>width (canvasSize s) * dpr s\<rfloor>
                       \<and> y < nat \<lfloor>height (canvasSize s) * dpr s\<rfloor>
                       \<and> x < bwidth (bmp c) \<and> y < bheight (bmp c)
                    then pixels (bmp c) x y else transparent)\<rparr>,
         ctx = \<lparr>cur = default_state\<lparr>transform := dpr s\<rparr>, stack = []\<rparr>\<rparr>\<rparr>)"
proof -
  let ?prev = "\<lparr>bwidth = bwidth (bmp c), bheight = bheight (bmp c),
          pixels = (\<lambda>x y. if x < bwidth (bmp c) \<and> y < bheight (bmp c) then pixels (bmp c) x y else transparent)\<rparr>"
  let ?d = "default_state\<lparr>transform := dpr s\<rparr>"
  let ?fresh = "blank (nat \<lfloor>width (canvasSize s) * dpr s\<rfloor>) (nat \<lfloor>height (canvasSize s) * dpr s\<rfloor>)"
  have pnz: "bwidth ?prev \<noteq> 0" "bheight ?prev \<noteq> 0" using nz by simp_all
  have sz: "real (bwidth (bmp c)) / dpr s * transform ?d = real (bwidth ?prev)"
    "real (bheight (bmp c)) / dpr s * transform ?d = real (bheight ?prev)"
    using k by simp_all
  have gco: "globalCompositeOperation ?d = SourceOver" by (simp add: default_state_def)
  have restored: "drawImage ?d ?prev 0 0 (real (bwidth (bmp c)) / dpr s) (real (bheight (bmp c)) / dpr s) ?fresh
     = Inr \<lparr>bwidth = nat \<lfloor>width (canvasSize s) * dpr s\<rfloor>,
                 bheight = nat \<lfloor>height (canvasSize s) * dpr s\<rfloor>,
                 pixels = (\<lambda>x y.
                    if x < nat \<lfloor>width (canvasSize s) * dpr s\<rfloor>
                       \<and> y < nat \<lfloor>height (canvasSize s) * dpr s\<rfloor>
                       \<and> x < bwidth (bmp c) \<and> y < bheight (bmp c)
                    then pixels (bmp c) x y else transparent)\<rparr>"
    unfolding drawImage_unit [OF pnz sz] gco by (auto simp: blank_def fun_eq_iff)
  show ?thesis
    unfolding reinit_def using c
    by (simp add: drawImage3_copy [OF nz] Let_def restored nz)
qed

subsection \<open>Handlers and steps\<close>

lemma drawLine_fields:
  "canvasSize (drawLine v r p q s) = canvasSize s" "dpr (drawLine v r p q s) = dpr s"
  "isDrawing (drawLine v r p q s) = isDrawing s" "lastPoint (drawLine v r p q s) = lastPoint s"
  by (simp_all add: drawLine_def Let_def split: option.splits)

lemma stroke_dims [simp]:
  "bwidth (stroke r d p q b) = bwidth b" "bheight (stroke r d p q b) = bheight b"
  by (simp_all add: stroke_def)

lemma clearRect_dims [simp]:
  "bwidth (clearRect d rx ry rw rh b) = bwidth b" "bheight (clearRect d rx ry rw rh b) = bheight b"
  by (simp_all add: clearRect_def Let_def)

lemma usable_drawLine [simp]: "usable (drawLine v r p q s) = usable s"
  by (simp add: usable_def drawLine_def Let_def split: option.splits)

lemma usable_extendIfNeeded [simp]: "usable (extendIfNeeded v y s) = usable s"
  by (simp add: usable_def extendIfNeeded_def)

lemma usable_lastPoint [simp]: "usable (s\<lparr>lastPoint := p\<rparr>) = usable s"
  by (simp add: usable_def)

lemma usable_onPointerMove [simp]: "usable (onPointerMove v r e s) = usable s"
  by (simp add: onPointerMove_def Let_def split: option.splits)

lemma usable_handleClear [simp]: "usable (handleClear v s) = usable s"
  by (simp add: usable_def handleClear_def Let_def split: option.splits)

lemma canvas_handleResize [simp]: "canvas (handleResize env s) = canvas s"
  by (simp add: handleResize_def Let_def split: option.splits)

lemma usable_handler [simp]: "usable (handler v r ev s) = usable s"
proof (cases ev)
  case (PointerMove e)
  then show ?thesis by simp
next
  case Clear
  then show ?thesis by simp
qed (simp_all add: usable_def startDraw_def endDrawUp_def endDrawCancel_def
       endDrawLeave_def endDrawOut_def Let_def)

lemma canvasSize_onPointerMove:
  "width (canvasSize (onPointerMove v r e s)) = width (canvasSize s)"
  "height (canvasSize s) \<le> height (canvasSize (onPointerMove v r e s))"
  "dpr (onPointerMove v r e s) = dpr s"
  "isDrawing (onPointerMove v r e s) = isDrawing s"
  by (simp_all add: onPointerMove_def extendIfNeeded_def drawLine_fields Let_def split: option.splits)

lemma handler_height: "height (canvasSize s) \<le> height (canvasSize (handler v r ev s))"
  by (cases ev)
    (simp_all add: canvasSize_onPointerMove startDraw_def endDrawUp_def endDrawCancel_def
       endDrawLeave_def endDrawOut_def handleResize_def handleClear_def Let_def
       split: option.splits)

lemma step_height:
  assumes "step r ev s = Inr s'"
  shows "height (canvasSize s) \<le> height (canvasSize s')"
proof -
  have "canvasSize s' = canvasSize (handler s r ev s)"
    using assms reinit_fields [of "handler s r ev s" s']
    unfolding step_def Let_def by (auto split: if_splits)
  then show ?thesis using handler_height [of s s r ev] by simp
qed

lemma run_height:
  "run r evs s = Inr s' \<Longrightarrow> height (canvasSize s) \<le> height (canvasSize s')"
proof (induction evs arbitrary: s)
  case Nil
  then show ?case by simp
next
  case (Cons ev evs)
  then obtain s1 where s1: "step r ev s = Inr s1" and rest: "run r evs s1 = Inr s'"
    by (auto split: sum.splits)
  have "height (canvasSize s) \<le> height (canvasSize s1)" by (rule step_height [OF s1])
  also have "\<dots> \<le> height (canvasSize s')" by (rule Cons.IH [OF rest])
  finally show ?case .
qed

lemma handler_well_sized:
  assumes "well_sized s"
  shows "well_sized (handler v r ev s)"
proof -
  have "1 \<le> height (canvasSize (handler v r ev s))"
    using assms handler_height [of s v r ev] by (simp add: well_sized_def)
  moreover have "1 \<le> width (canvasSize (handler v r ev s)) \<and> 1 \<le> dpr (handler v r ev s)"
    using assms
    by (cases ev)
      (simp_all add: well_sized_def canvasSize_onPointerMove startDraw_def endDrawUp_def
         endDrawCancel_def endDrawLeave_def endDrawOut_def handleResize_def handleClear_def
         Let_def le_max_iff_disj split: option.splits)
  ultimately show ?thesis using assms by (simp add: well_sized_def)
qed

lemma reinit_well_sized:
  assumes "well_sized s"
  shows "\<exists>s'. reinit s = Inr s' \<and> well_sized s'"
proof (cases "canvas s")
  case None
  then show ?thesis using assms by (simp add: reinit_def)
next
  case (Some c)
  with assms have nz: "bwidth (bmp c) \<noteq> 0" "bheight (bmp c) \<noteq> 0" and k: "dpr s \<noteq> 0"
    and sz: "1 \<le> width (canvasSize s)" "1 \<le> height (canvasSize s)" "1 \<le> dpr s"
    by (simp_all add: well_sized_def usable_def)
  have "1 \<le> width (canvasSize s) * dpr s" "1 \<le> height (canvasSize s) * dpr s"
    using sz by (simp_all add: mult_ge1_I)
  then have "0 < nat \<lfloor>width (canvasSize s) * dpr s\<rfloor>" "0 < nat \<lfloor>height (canvasSize s) * dpr s\<rfloor>"
    by simp_all
  then show ?thesis
    unfolding reinit_eq [OF Some nz k] using sz by (simp add: well_sized_def usable_def)
qed

lemma step_well_sized:
  assumes "well_sized s"
  shows "\<exists>s'. step r ev s = Inr s' \<and> well_sized s'"
  unfolding step_def Let_def
  using handler_well_sized [OF assms, of s r ev] reinit_well_sized [of "handler s r ev s"]
  by simp

lemma run_well_sized:
  "well_sized s \<Longrightarrow> \<exists>s'. run r evs s = Inr s' \<and> well_sized s'"
proof (induction evs arbitrary: s)
  case Nil
  then show ?case by simp
next
  case (Cons ev evs)
  from step_well_sized [OF Cons.prems] obtain s1 where "step r ev s = Inr s1" "well_sized s1"
    by blast
  with Cons.IH [of s1] show ?case by simp
qed

subsection \<open>Runs of events and renders\<close>

lemma render_now:
  assumes "render c = Inr c'"
  shows "view c' = now c' \<and> canvasSize (now c') = canvasSize (now c) \<and> dpr (now c') = dpr (now c)
         \<and> isDrawing (now c') = isDrawing (now c) \<and> lastPoint (now c') = lastPoint (now c)
         \<and> tool (now c') = tool (now c) \<and> color (now c') = color (now c)
         \<and> size_px (now c') = size_px (now c)"
proof (cases "c' = rendered (now c)")
  case True
  then show ?thesis by (simp add: rendered_def)
next
  case False
  then obtain s'' where "reinit (now c) = Inr s''" "c' = rendered s''"
    using assms unfolding render_def Let_def by (auto split: if_splits sum.splits)
  then show ?thesis using reinit_fields [of "now c" s''] by (simp add: rendered_def)
qed

lemma act_height:
  assumes "act r a c = Inr c'"
  shows "height (canvasSize (now c)) \<le> height (canvasSize (now c'))"
proof (cases a)
  case (Dispatch ev)
  then show ?thesis using assms handler_height [of "now c" "view c" r ev]
    by (auto simp: dispatch_def)
next
  case Render
  then show ?thesis using assms render_now [of c c'] by simp
qed

lemma play_height:
  "play r acts c = Inr c' \<Longrightarrow> height (canvasSize (now c)) \<le> height (canvasSize (now c'))"
proof (induction acts arbitrary: c)
  case Nil
  then show ?case by simp
next
  case (Cons a acts)
  then obtain c1 where c1: "act r a c = Inr c1" and rest: "play r acts c1 = Inr c'"
    by (auto split: sum.splits)
  have "height (canvasSize (now c)) \<le> height (canvasSize (now c1))" by (rule act_height [OF c1])
  also have "\<dots> \<le> height (canvasSize (now c'))" by (rule Cons.IH [OF rest])
  finally show ?case .
qed

lemma act_well_sized:
  assumes "well_sized (now c)"
  shows "\<exists>c'. act r a c = Inr c' \<and> well_sized (now c')"
proof (cases a)
  case (Dispatch ev)
  then show ?thesis using handler_well_sized [OF assms, of "view c" r ev]
    by (simp add: dispatch_def)
next
  case Render
  from reinit_well_sized [OF assms] obtain s' where "reinit (now c) = Inr s'" "well_sized s'"
    by blast
  then show ?thesis using Render assms by (simp add: render_def Let_def rendered_def)
qed

lemma play_well_sized:
  "well_sized (now c) \<Longrightarrow> \<exists>c'. play r acts c = Inr c' \<and> well_sized (now c')"
proof (induction acts arbitrary: c)
  case Nil
  then show ?case by simp
next
  case (Cons a acts)
  from act_well_sized [OF Cons.prems] obtain c1 where "act r a c = Inr c1" "well_sized (now c1)"
    by blast
  with Cons.IH [of c1] show ?case by simp
qed

lemma play_step:
  "play r [Dispatch ev, Render] (rendered s) =
     (case step r ev s of Inl e \<Rightarrow> Inl e | Inr s' \<Rightarrow> Inr (rendered s'))"
  by (simp add: dispatch_def render_def step_def rendered_def Let_def split: sum.splits)

lemma play_append:
  "play r (as @ bs) c = (case play r as c of Inl e \<Rightarrow> Inl e | Inr c' \<Rightarrow> play r bs c')"
  by (induction as arbitrary: c) (simp_all split: sum.splits)

subsection \<open>Sessions\<close>







subsection \<open>Strokes\<close>

lemma clamp_cases: "clamp n 1 64 = (if n < 1 then 1 else if 64 < n then 64 else n)"
  by (simp add: clamp_def)

lemma clamp_bounds: "1 \<le> clamp n 1 64" "clamp n 1 64 \<le> 64"
  by (simp_all add: clamp_def)

lemma clamp_idem: "clamp (clamp n 1 64) 1 64 = clamp n 1 64"
  by (simp add: clamp_def)

lemma lineWidth_pen_state: "lineWidth (pen_state v d) = clamp (size_px v) 1 64"
proof -
  have "0 < clamp (size_px v) 1 64" using clamp_bounds(1) [of "size_px v"] by linarith
  then show ?thesis by (simp add: pen_state_def set_lineWidth_def Let_def)
qed

lemma pen_state_size:
  assumes "clamp n 1 64 = clamp (size_px v) 1 64"
  shows "pen_state (v\<lparr>size_px := n\<rparr>) d = pen_state v d"
  using assms by (simp add: pen_state_def Let_def)

lemma drawLine_size:
  assumes "clamp n 1 64 = clamp (size_px v) 1 64"
  shows "drawLine (v\<lparr>size_px := n\<rparr>) r p q s = drawLine v r p q s"
  using pen_state_size [OF assms] by (simp add: drawLine_def Let_def split: option.splits)

lemma geom_pen_state: "geom (pen_state v d) p q = seg_geom v (transform d) p q"
proof -
  have "0 < clamp (size_px v) 1 64" using clamp_bounds(1) [of "size_px v"] by linarith
  then show ?thesis by (simp add: geom_def seg_geom_def pen_state_def set_lineWidth_def Let_def)
qed

lemma transform_pen_state [simp]: "transform (pen_state v d) = transform d"
  by (simp add: pen_state_def set_lineWidth_def Let_def)

lemma drawLine_canvas:
  assumes "canvas s = Some c" and "stack (ctx c) = []"
  shows "canvas (drawLine v r p q s) =
     Some \<lparr>bmp = stroke r (pen_state v (cur (ctx c))) p q (bmp c),
           ctx = (ctx c)\<lparr>cur := pen_state v (cur (ctx c))\<rparr>\<rparr>"
  using assms by (simp add: drawLine_def Let_def restore_def)

lemma stroke_pixel:
  assumes "x < bwidth b" and "y < bheight b"
  shows "pixels (stroke r (pen_state v d) p q b) x y =
     composite (globalCompositeOperation (pen_state v d))
       (scale_px (r (seg_geom v (transform d) p q) x y) (premultiply (strokeStyle (pen_state v d))))
       (pixels b x y)"
  using assms by (simp add: stroke_def geom_pen_state)

lemma stroke_alpha:
  assumes "x < bwidth b" and "y < bheight b"
  shows "alpha (pixels (stroke r (pen_state v d) p q b) x y) =
     (if tool v = Eraser
      then mul255 (alpha (pixels b x y)) (255 - r (seg_geom v (transform d) p q) x y)
      else mul255 (alpha (color v)) (r (seg_geom v (transform d) p q) x y)
           + mul255 (alpha (pixels b x y))
               (255 - mul255 (alpha (color v)) (r (seg_geom v (transform d) p q) x y)))"
  unfolding stroke_pixel [OF assms]
  by (simp add: pen_state_def Let_def destination_out_def source_over_def scale_px_def
      premultiply_def)

text \<open>One call of \<open>drawLine\<close> and a chain of them on a canvas with nothing saved, seen at
  one pixel.\<close>

lemma drawLine_at:
  assumes "canvas s = Some c" and "stack (ctx c) = []"
    and "x < bwidth (bmp c)" and "y < bheight (bmp c)"
  shows "\<exists>c'. canvas (drawLine v r p q s) = Some c' \<and> stack (ctx c') = []
           \<and> transform (cur (ctx c')) = transform (cur (ctx c))
           \<and> bwidth (bmp c') = bwidth (bmp c) \<and> bheight (bmp c') = bheight (bmp c)
           \<and> alpha (pixels (bmp c') x y) =
               (if tool v = Eraser
                then mul255 (alpha (pixels (bmp c) x y))
                       (255 - r (seg_geom v (transform (cur (ctx c))) p q) x y)
                else mul255 (alpha (color v)) (r (seg_geom v (transform (cur (ctx c))) p q) x y)
                     + mul255 (alpha (pixels (bmp c) x y))
                         (255 - mul255 (alpha (color v))
                                  (r (seg_geom v (transform (cur (ctx c))) p q) x y)))"
  unfolding drawLine_canvas [OF assms(1,2)]
  using assms(2) stroke_alpha [OF assms(3,4), of r v "cur (ctx c)" p q] by simp

lemma canvas_alpha_at:
  assumes "canvas s = Some c" and "x < bwidth (bmp c)" and "y < bheight (bmp c)"
  shows "canvas_alpha s x y = Some (alpha (pixels (bmp c) x y))"
  using assms by (simp add: canvas_alpha_def pixel_at_def)

lemma drawPath_at:
  assumes "canvas s = Some c" and "stack (ctx c) = []"
    and "x < bwidth (bmp c)" and "y < bheight (bmp c)"
  shows "\<exists>c'. canvas (drawPath v r p qs s) = Some c' \<and> stack (ctx c') = []
           \<and> transform (cur (ctx c')) = transform (cur (ctx c))
           \<and> bwidth (bmp c') = bwidth (bmp c) \<and> bheight (bmp c') = bheight (bmp c)"
  using assms
proof (induction qs arbitrary: p s c)
  case Nil
  then show ?case by simp
next
  case (Cons q qs)
  from drawLine_at [OF Cons.prems, of v r p q] obtain c1 where
    c1: "canvas (drawLine v r p q s) = Some c1" "stack (ctx c1) = []"
      "transform (cur (ctx c1)) = transform (cur (ctx c))"
      "bwidth (bmp c1) = bwidth (bmp c)" "bheight (bmp c1) = bheight (bmp c)"
    by blast
  have "x < bwidth (bmp c1)" "y < bheight (bmp c1)" using c1(4,5) Cons.prems(3,4) by simp_all
  from Cons.IH [OF c1(1,2) this, of q] show ?case using c1(3,4,5) by simp
qed

lemma erase_path:
  assumes "tool v = Eraser"
    and "canvas s = Some c" and "stack (ctx c) = []"
    and "x < bwidth (bmp c)" and "y < bheight (bmp c)"
    and "alpha (pixels (bmp c) x y) = 0 \<or> wholly_covered r v (transform (cur (ctx c))) p qs x y"
  shows "canvas_alpha (drawPath v r p qs s) x y = Some 0"
  using assms(2-)
proof (induction qs arbitrary: p s c)
  case Nil
  then show ?case by (simp add: canvas_alpha_at wholly_covered_def)
next
  case (Cons q qs)
  from drawLine_at [OF Cons.prems(1-4), of v r p q] assms(1) obtain c1 where
    c1: "canvas (drawLine v r p q s) = Some c1" "stack (ctx c1) = []"
      "transform (cur (ctx c1)) = transform (cur (ctx c))"
      "bwidth (bmp c1) = bwidth (bmp c)" "bheight (bmp c1) = bheight (bmp c)"
      "alpha (pixels (bmp c1) x y) =
         mul255 (alpha (pixels (bmp c) x y)) (255 - r (seg_geom v (transform (cur (ctx c))) p q) x y)"
    by auto
  have xy: "x < bwidth (bmp c1)" "y < bheight (bmp c1)" using c1(4,5) Cons.prems(3,4) by simp_all
  have "alpha (pixels (bmp c1) x y) = 0 \<or> wholly_covered r v (transform (cur (ctx c1))) q qs x y"
    using Cons.prems(5) c1(3,6) by (auto simp: wholly_covered_def)
  from Cons.IH [OF c1(1,2) xy this] show ?case by simp
qed

lemma pen_path:
  assumes "tool v = Pen" and "alpha (color v) = 255" and "\<And>g x y. r g x y \<le> 255"
    and "canvas s = Some c" and "stack (ctx c) = []"
    and "x < bwidth (bmp c)" and "y < bheight (bmp c)"
    and "alpha (pixels (bmp c) x y) = 255 \<or> wholly_covered r v (transform (cur (ctx c))) p qs x y"
  shows "canvas_alpha (drawPath v r p qs s) x y = Some 255"
  using assms(4-)
proof (induction qs arbitrary: p s c)
  case Nil
  then show ?case by (simp add: canvas_alpha_at wholly_covered_def)
next
  case (Cons q qs)
  let ?k = "r (seg_geom v (transform (cur (ctx c))) p q) x y"
  from drawLine_at [OF Cons.prems(1-4), of v r p q] assms(1,2) obtain c1 where
    c1: "canvas (drawLine v r p q s) = Some c1" "stack (ctx c1) = []"
      "transform (cur (ctx c1)) = transform (cur (ctx c))"
      "bwidth (bmp c1) = bwidth (bmp c)" "bheight (bmp c1) = bheight (bmp c)"
      "alpha (pixels (bmp c1) x y) = ?k + mul255 (alpha (pixels (bmp c) x y)) (255 - ?k)"
    by auto
  have xy: "x < bwidth (bmp c1)" "y < bheight (bmp c1)" using c1(4,5) Cons.prems(3,4) by simp_all
  have k: "?k \<le> 255" by (rule assms(3))
  have "alpha (pixels (bmp c1) x y) = 255 \<or> wholly_covered r v (transform (cur (ctx c1))) q qs x y"
    using Cons.prems(5) c1(3,6) k by (auto simp: wholly_covered_def)
  from Cons.IH [OF c1(1,2) xy this] show ?case by simp
qed

lemma wholly_covered_size:
  assumes "size_px v' = size_px v"
  shows "wholly_covered r v' t p qs x y = wholly_covered r v t p qs x y"
  using assms by (simp add: wholly_covered_def seg_geom_def)

lemma balanced_drawLine:
  assumes "balanced s"
  shows "balanced (drawLine v r p q s)"
  using assms
  by (auto simp: balanced_def drawLine_def Let_def restore_def split: option.splits)

lemma balanced_canvas: "canvas s' = canvas s \<Longrightarrow> balanced s \<Longrightarrow> balanced s'"
  by (simp add: balanced_def)

lemma balanced_onPointerMove:
  assumes "balanced s"
  shows "balanced (onPointerMove v r e s)"
proof (cases "onPointerMove v r e s = s")
  case True
  then show ?thesis using assms by simp
next
  case False
  then obtain lp p where "canvas (onPointerMove v r e s) = canvas (drawLine v r lp p s)"
    by (auto simp: onPointerMove_def extendIfNeeded_def Let_def split: option.splits if_splits)
  then show ?thesis using balanced_drawLine [OF assms] balanced_canvas by blast
qed

lemma balanced_handler:
  assumes "balanced s"
  shows "balanced (handler v r ev s)"
proof (cases ev)
  case (PointerMove e)
  then show ?thesis using balanced_onPointerMove [OF assms] by simp
next
  case Clear
  then show ?thesis using assms
    by (auto simp: balanced_def handleClear_def Let_def save_def restore_def split: option.splits)
qed (use assms in \<open>simp_all add: balanced_def startDraw_def endDrawUp_def endDrawCancel_def
       endDrawLeave_def endDrawOut_def Let_def\<close>)

lemma balanced_act:
  assumes "balanced (now c)" and "act r a c = Inr c'"
  shows "balanced (now c')"
proof (cases a)
  case (Dispatch ev)
  then show ?thesis using assms balanced_handler [OF assms(1), of "view c" r ev]
    by (auto simp: dispatch_def)
next
  case Render
  then show ?thesis using assms
    by (auto simp: render_def rendered_def reinit_def balanced_def Let_def
        split: option.splits sum.splits if_splits)
qed

subsection \<open>The growth scenario\<close>

lemma onPointerMove_canvasSize:
  assumes "isDrawing v" and "lastPoint v = Some lp"
  shows "canvasSize (onPointerMove v r e s) =
     (if height (canvasSize v) - (clientY e - rect_top e) < 200
      then (canvasSize s)\<lparr>height := height (canvasSize s) + 1000\<rparr> else canvasSize s)"
    and "dpr (onPointerMove v r e s) = dpr s"
  using assms by (simp_all add: onPointerMove_def extendIfNeeded_def drawLine_fields Let_def)

lemma down_render:
  "play r [Dispatch (PointerDown e), Render] (rendered s) = Inr (rendered (startDraw e s))"
  by (simp add: dispatch_def render_def rendered_def startDraw_def Let_def)

lemma startDraw_fields:
  "isDrawing (startDraw e s)" "lastPoint (startDraw e s) = Some (clientX e - rect_left e, clientY e - rect_top e)"
  "canvasSize (startDraw e s) = canvasSize s" "dpr (startDraw e s) = dpr s"
  "usable (startDraw e s) = usable s"
  by (simp_all add: startDraw_def usable_def Let_def)

lemma moves_in_one_render:
  assumes "height (canvasSize s) = 400"
  shows "\<exists>c1 c.
      play r [Dispatch (PointerDown (pointer_at 10 10)), Render,
              Dispatch (PointerMove (pointer_at 10 210))] (rendered s) = Inr c1
      \<and> height (canvasSize (now c1)) = 1400
      \<and> play r [Dispatch (PointerDown (pointer_at 10 10)), Render,
                Dispatch (PointerMove (pointer_at 10 210)),
                Dispatch (PointerMove (pointer_at 10 211))] (rendered s) = Inr c
      \<and> height (canvasSize (view c)) = 400
      \<and> height (canvasSize (now c)) = 2400"
proof -
  let ?s1 = "startDraw (pointer_at 10 10) s"
  let ?s2 = "onPointerMove ?s1 r (pointer_at 10 210) ?s1"
  let ?s3 = "onPointerMove ?s1 r (pointer_at 10 211) ?s2"
  have v: "isDrawing ?s1" "lastPoint ?s1 = Some (10, 10)" "height (canvasSize ?s1) = 400"
    using assms by (simp_all add: startDraw_def pointer_at_def)
  have h2: "height (canvasSize ?s2) = 1400"
    unfolding onPointerMove_canvasSize(1) [OF v(1,2)] using v(3) by (simp add: pointer_at_def)
  have h3: "height (canvasSize ?s3) = 2400"
    unfolding onPointerMove_canvasSize(1) [OF v(1,2)] using v(3) h2 by (simp add: pointer_at_def)
  have a: "play r [Dispatch (PointerDown (pointer_at 10 10)), Render,
                Dispatch (PointerMove (pointer_at 10 210))] (rendered s)
        = Inr \<lparr>view = ?s1, now = ?s2\<rparr>"
    using play_append [of r "[Dispatch (PointerDown (pointer_at 10 10)), Render]"
        "[Dispatch (PointerMove (pointer_at 10 210))]" "rendered s"]
    unfolding down_render by (simp add: dispatch_def rendered_def)
  have b: "play r [Dispatch (PointerDown (pointer_at 10 10)), Render,
                Dispatch (PointerMove (pointer_at 10 210)),
                Dispatch (PointerMove (pointer_at 10 211))] (rendered s)
        = Inr \<lparr>view = ?s1, now = ?s3\<rparr>"
    using play_append [of r "[Dispatch (PointerDown (pointer_at 10 10)), Render]"
        "[Dispatch (PointerMove (pointer_at 10 210)), Dispatch (PointerMove (pointer_at 10 211))]"
        "rendered s"]
    unfolding down_render by (simp add: dispatch_def rendered_def)
  show ?thesis
    using a b v(3) h2 h3
    by (intro exI [of _ "\<lparr>view = ?s1, now = ?s2\<rparr>"] exI [of _ "\<lparr>view = ?s1, now = ?s3\<rparr>"]) simp
qed

lemma moves_with_renders:
  assumes "height (canvasSize s) = 400" and "usable s"
  shows "\<exists>c2 c3.
      play r [Dispatch (PointerDown (pointer_at 10 10)), Render,
              Dispatch (PointerMove (pointer_at 10 210)), Render] (rendered s) = Inr c2
      \<and> height (canvasSize (now c2)) = 1400
      \<and> play r [Dispatch (PointerMove (pointer_at 10 211)), Render] c2 = Inr c3
      \<and> height (canvasSize (now c3)) = 1400"
proof -
  let ?s1 = "startDraw (pointer_at 10 10) s"
  let ?m = "onPointerMove ?s1 r (pointer_at 10 210) ?s1"
  have v: "isDrawing ?s1" "lastPoint ?s1 = Some (10, 10)" "height (canvasSize ?s1) = 400"
    using assms by (simp_all add: startDraw_def pointer_at_def)
  have m: "canvasSize ?m = (canvasSize ?s1)\<lparr>height := 1400\<rparr>" "dpr ?m = dpr ?s1"
    "isDrawing ?m" "lastPoint ?m = Some (10, 210)"
    using v
    by (simp_all add: onPointerMove_def extendIfNeeded_def drawLine_fields pointer_at_def Let_def)
  have "usable ?m" using assms(2) by (simp add: startDraw_fields)
  then obtain cv where r2: "reinit ?m = Inr (?m\<lparr>canvas := cv\<rparr>)"
    using reinit_usable by blast
  let ?s2 = "?m\<lparr>canvas := cv\<rparr>"
  have 2: "step r (PointerMove (pointer_at 10 210)) ?s1 = Inr ?s2"
    unfolding step_def handler.simps Let_def using v(3) m(1) r2 by simp
  have s2: "canvasSize ?s2 = (canvasSize ?s1)\<lparr>height := 1400\<rparr>" "isDrawing ?s2"
    "lastPoint ?s2 = Some (10, 210)"
    using m by simp_all
  let ?s3 = "onPointerMove ?s2 r (pointer_at 10 211) ?s2"
  have s3: "canvasSize ?s3 = canvasSize ?s2" "dpr ?s3 = dpr ?s2"
    using s2
    by (simp_all add: onPointerMove_def extendIfNeeded_def drawLine_fields pointer_at_def Let_def)
  have 3: "step r (PointerMove (pointer_at 10 211)) ?s2 = Inr ?s3"
    unfolding step_def handler.simps Let_def using s3 by simp
  have a1: "play r [Dispatch (PointerMove (pointer_at 10 210)), Render] (rendered ?s1) = Inr (rendered ?s2)"
    unfolding play_step 2 by simp
  have "play r ([Dispatch (PointerDown (pointer_at 10 10)), Render]
              @ [Dispatch (PointerMove (pointer_at 10 210)), Render]) (rendered s) = Inr (rendered ?s2)"
    unfolding play_append down_render by (simp only: sum.case a1)
  then have a: "play r [Dispatch (PointerDown (pointer_at 10 10)), Render,
              Dispatch (PointerMove (pointer_at 10 210)), Render] (rendered s) = Inr (rendered ?s2)"
    by simp
  have b: "play r [Dispatch (PointerMove (pointer_at 10 211)), Render] (rendered ?s2) = Inr (rendered ?s3)"
    unfolding play_step 3 by simp
  show ?thesis
    using a b s2(1) s3(1) by (intro exI [of _ "rendered ?s2"] exI [of _ "rendered ?s3"]) (simp add: rendered_def)
qed

subsection \<open>What one call of drawLine strokes\<close>

lemma drawLine_bmp:
  assumes "canvas s = Some c"
  shows "\<exists>c'. canvas (drawLine v r p q s) = Some c'
           \<and> bmp c' = stroke r (pen_state v (cur (ctx c))) p q (bmp c)"
  using assms by (simp add: drawLine_def Let_def)


section \<open>Properties of the component\<close>

subsection \<open>Export\<close>

text \<open>
  C1. For a canvas whose bitmap has width \<open>w\<close> and height \<open>h\<close> (both non-zero, as
  \<open>getImageData\<close> requires), \<open>handleExport\<close> downloads an image \<open>e\<close>. The inner loop
  finds ink in row \<open>y'\<close> exactly when some pixel of the row has a non-zero alpha; the
  outer loop, going from row \<open>h - 1\<close> up to row 0, leaves in \<open>lastNonEmptyY\<close> the first
  ink row it meets, which is the bottom ink row, or 0 when no row has ink. The image has
  width \<open>w\<close> and height \<open>max 1 (lastNonEmptyY + 10)\<close>, and each of its pixels is the
  pixel of the canvas at the same place (read as the canvas reads it: transparent black
  outside the bitmap).
\<close>

theorem export_crop:
  assumes "canvas s = Some c" and "bwidth (bmp c) \<noteq> 0" and "bheight (bmp c) \<noteq> 0"
  shows "\<exists>e y. handleExport s = Downloaded e
           \<and> (\<forall>y'<bheight (bmp c).
                 rowHasInk (imageData (bmp c)) (y' * bwidth (bmp c) * 4) (bwidth (bmp c)) 0
                   = row_has_ink (bmp c) y')
           \<and> y = scanRows (imageData (bmp c)) (bwidth (bmp c)) (bheight (bmp c))
           \<and> (if has_ink (bmp c) then bottom_ink (bmp c) y else y = 0)
           \<and> bwidth e = bwidth (bmp c)
           \<and> bheight e = max 1 (y + 10)
           \<and> (\<forall>x<bwidth e. \<forall>y'<bheight e. pixel_at e x y' = pixel_at (bmp c) x y')"
proof -
  let ?b = "bmp c"
  let ?y = "scanRows (imageData ?b) (bwidth ?b) (bheight ?b)"
  let ?e = "\<lparr>bwidth = bwidth ?b, bheight = max 1 (?y + 10),
          pixels = (\<lambda>x y. if x < bwidth ?b \<and> y < max 1 (?y + 10) \<and> y < bheight ?b
             then pixels ?b x y else transparent)\<rparr>"
  have 1: "handleExport s = Downloaded ?e" by (rule handleExport_eq [OF assms])
  have 2: "\<forall>y'<bheight ?b. rowHasInk (imageData ?b) (y' * bwidth ?b * 4) (bwidth ?b) 0 = row_has_ink ?b y'"
    using rowHasInk_imageData by blast
  have 3: "if has_ink ?b then bottom_ink ?b ?y else ?y = 0"
    using scanRows_bottom_ink scanRows_no_ink by simp
  have 4: "\<forall>x<bwidth ?e. \<forall>y'<bheight ?e. pixel_at ?e x y' = pixel_at ?b x y'"
    by (simp add: pixel_at_def)
  show ?thesis
    using 1 2 3 4 by (intro exI [of _ ?e] exI [of _ ?y]) simp
qed

text \<open>The statement at a 2 by 3 bitmap with one opaque pixel in row 1: the image is 2
  by 11.\<close>

theorem export_crop_witness:
  "canvas (board (dot_bitmap 2 3 1 1)) = Some \<lparr>bmp = dot_bitmap 2 3 1 1, ctx = new_context\<rparr>
   \<and> bwidth (dot_bitmap 2 3 1 1) \<noteq> 0 \<and> bheight (dot_bitmap 2 3 1 1) \<noteq> 0
   \<and> (\<exists>e. handleExport (board (dot_bitmap 2 3 1 1)) = Downloaded e
          \<and> bwidth e = 2 \<and> bheight e = 11
          \<and> pixel_at e 1 1 = opaque_black \<and> pixel_at e 1 5 = transparent)"
proof -
  let ?b = "dot_bitmap 2 3 1 1"
  let ?c = "\<lparr>bmp = ?b, ctx = new_context\<rparr>"
  have c: "canvas (board ?b) = Some ?c" by (simp add: board_def)
  have w: "bwidth (bmp ?c) \<noteq> 0" and h: "bheight (bmp ?c) \<noteq> 0" by (simp_all add: dot_bitmap_def)
  have ink: "has_ink ?b" and bot: "bottom_ink ?b 1"
    by (simp_all add: has_ink_iff bottom_ink_iff row_has_ink_iff dot_bitmap_def opaque_black_def transparent_def)
  from export_crop [OF c w h] obtain e y where
    e: "handleExport (board ?b) = Downloaded e"
      "if has_ink (bmp ?c) then bottom_ink (bmp ?c) y else y = 0"
      "bwidth e = bwidth (bmp ?c)" "bheight e = max 1 (y + 10)"
      "\<forall>x<bwidth e. \<forall>y'<bheight e. pixel_at e x y' = pixel_at (bmp ?c) x y'"
    by blast
  from e(2) ink bot have y: "y = 1" using bottom_ink_unique by auto
  have "pixel_at e 1 1 = pixel_at ?b 1 1" "pixel_at e 1 5 = pixel_at ?b 1 5"
    using e(3,4,5) y by (simp_all add: dot_bitmap_def)
  then have "pixel_at e 1 1 = opaque_black" "pixel_at e 1 5 = transparent"
    by (simp_all add: pixel_at_def dot_bitmap_def)
  with e(1,3,4) y c show ?thesis by (simp add: dot_bitmap_def)
qed

text \<open>
  C10, as stated, at the boundary: a 1600 by 1400 bitmap whose bottom ink row is row 1390
  (so \<open>y \<ge> h - 10\<close>) is exported at height 1400, which does not exceed the height of the
  bitmap.
\<close>

theorem export_height_at_boundary:
  "bottom_ink (dot_bitmap 1600 1400 100 1390) 1390
   \<and> int (bheight (dot_bitmap 1600 1400 100 1390)) - 10 \<le> int 1390
   \<and> export_height (board (dot_bitmap 1600 1400 100 1390)) = Some 1400
   \<and> \<not> bheight (dot_bitmap 1600 1400 100 1390) < 1400"
proof -
  let ?b = "dot_bitmap 1600 1400 100 1390"
  let ?c = "\<lparr>bmp = ?b, ctx = new_context\<rparr>"
  have bot: "bottom_ink ?b 1390"
    unfolding bottom_ink_iff row_has_ink_iff
    by (auto simp: dot_bitmap_def opaque_black_def transparent_def)
  have c: "canvas (board ?b) = Some ?c" by (simp add: board_def)
  have nz: "bwidth (bmp ?c) \<noteq> 0" "bheight (bmp ?c) \<noteq> 0" by (simp_all add: dot_bitmap_def)
  have y: "scanRows (imageData ?b) (bwidth ?b) (bheight ?b) = 1390"
    by (rule scanRows_eq_bottom [OF bot])
  have "export_height (board ?b) = Some 1400"
    unfolding export_height_def handleExport_eq [OF c nz] by (simp add: y)
  with bot show ?thesis by (simp add: dot_bitmap_def)
qed

text \<open>
  C10, amended. For a bitmap of height \<open>h\<close> whose bottom ink row is \<open>y\<close>, the exported
  image has height \<open>y + 10\<close>, never capped at \<open>h\<close>: it exceeds \<open>h\<close> exactly when
  \<open>y + 10 > h\<close>, and its rows from \<open>h\<close> on are transparent black.
\<close>

theorem export_overflow:
  assumes "canvas s = Some c" and "bwidth (bmp c) \<noteq> 0" and "bottom_ink (bmp c) y"
  shows "\<exists>e. handleExport s = Downloaded e
           \<and> bheight e = y + 10
           \<and> (bheight (bmp c) < bheight e \<longleftrightarrow> bheight (bmp c) < y + 10)
           \<and> (\<forall>x<bwidth e. \<forall>y'<bheight e. bheight (bmp c) \<le> y' \<longrightarrow> pixels e x y' = transparent)"
proof -
  have h: "bheight (bmp c) \<noteq> 0" using assms(3) unfolding bottom_ink_iff by auto
  have y: "scanRows (imageData (bmp c)) (bwidth (bmp c)) (bheight (bmp c)) = y"
    by (rule scanRows_eq_bottom [OF assms(3)])
  show ?thesis
    unfolding handleExport_eq [OF assms(1,2) h] y by simp
qed

text \<open>The statement at a 2 by 3 bitmap with its ink in row 1: the image has 11 rows, 8
  of them below the bitmap.\<close>

theorem export_overflow_witness:
  "canvas (board (dot_bitmap 2 3 1 1)) = Some \<lparr>bmp = dot_bitmap 2 3 1 1, ctx = new_context\<rparr>
   \<and> bwidth (dot_bitmap 2 3 1 1) \<noteq> 0 \<and> bottom_ink (dot_bitmap 2 3 1 1) 1
   \<and> (\<exists>e. handleExport (board (dot_bitmap 2 3 1 1)) = Downloaded e
          \<and> bheight e = 11 \<and> bheight (dot_bitmap 2 3 1 1) < bheight e
          \<and> pixels e 0 3 = transparent \<and> pixels e 1 10 = transparent)"
proof -
  let ?b = "dot_bitmap 2 3 1 1"
  let ?c = "\<lparr>bmp = ?b, ctx = new_context\<rparr>"
  have c: "canvas (board ?b) = Some ?c" by (simp add: board_def)
  have w: "bwidth (bmp ?c) \<noteq> 0" by (simp add: dot_bitmap_def)
  have bot: "bottom_ink (bmp ?c) 1"
    by (simp add: bottom_ink_iff row_has_ink_iff dot_bitmap_def opaque_black_def transparent_def)
  from export_overflow [OF c w bot] obtain e where
    e: "handleExport (board ?b) = Downloaded e" "bheight e = 1 + 10"
      "bheight (bmp ?c) < bheight e \<longleftrightarrow> bheight (bmp ?c) < 1 + 10"
      "\<forall>x<bwidth e. \<forall>y'<bheight e. bheight (bmp ?c) \<le> y' \<longrightarrow> pixels e x y' = transparent"
      by blast
  have "bwidth e = 2" using e(1) handleExport_eq [of "board ?b" ?c] c
    by (auto simp: dot_bitmap_def)
  with e(2,4) have "pixels e 0 3 = transparent" "pixels e 1 10 = transparent"
    by (simp_all add: dot_bitmap_def)
  with e(1,2,3) c bot show ?thesis by (simp add: dot_bitmap_def)
qed

subsection \<open>Reinitialising the canvas\<close>

text \<open>
  C3. The effect draws the previous bitmap into the rectangle \<open>prev.width / dpr\<close> by
  \<open>prev.height / dpr\<close> under the transform \<open>dpr\<close>, both the new scale factor: the
  previous bitmap lands on the same device pixels, whatever the scale factor was before.
  With one opaque pixel at device pixel (100, 100) of a 1600 by 1400 canvas at scale 1,
  that is the logical point (100, 100); after a resize that reports scale 2 the pixel is
  still at device pixel (100, 100), now the logical point (50, 50), and the device pixels
  of the logical point (100, 100) are transparent. In the other direction, ink at device
  pixel (2000, 2000) at scale 2, the logical point (1000, 1000), is gone at scale 1.
\<close>

theorem rescale_moves_stroke:
  "pixel_after (step r (Resize \<lparr>devicePixelRatio = 2, clientWidth = Some 1632\<rparr>)
                  (board (dot_bitmap 1600 1400 100 100))) 100 100 = Some opaque_black
   \<and> pixel_after (step r (Resize \<lparr>devicePixelRatio = 2, clientWidth = Some 1632\<rparr>)
                  (board (dot_bitmap 1600 1400 100 100))) 200 200 = Some transparent
   \<and> pixel_after (step r (Resize \<lparr>devicePixelRatio = 2, clientWidth = Some 1632\<rparr>)
                  (board (dot_bitmap 1600 1400 100 100))) 201 201 = Some transparent
   \<and> pixel_after (step r (Resize \<lparr>devicePixelRatio = 1, clientWidth = Some 1632\<rparr>)
                  ((board (dot_bitmap 3200 2800 2000 2000))\<lparr>dpr := 2\<rparr>)) 1000 1000 = Some transparent"
proof -
  let ?env = "\<lparr>devicePixelRatio = 2, clientWidth = Some 1632\<rparr>"
  let ?b = "dot_bitmap 1600 1400 100 100"
  let ?s = "handleResize ?env (board ?b)"
  have s: "?s = (board ?b)\<lparr>dpr := 2\<rparr>"
    by (simp add: handleResize_def board_def)
  have st: "step r (Resize ?env) (board ?b) = reinit ?s"
    unfolding step_def handler.simps Let_def s by (simp add: board_def)
  have c: "canvas ?s = Some \<lparr>bmp = ?b, ctx = new_context\<rparr>" unfolding s by (simp add: board_def)
  have nz: "bwidth (bmp \<lparr>bmp = ?b, ctx = new_context\<rparr>) \<noteq> 0"
    "bheight (bmp \<lparr>bmp = ?b, ctx = new_context\<rparr>) \<noteq> 0"
    by (simp_all add: dot_bitmap_def)
  have k: "dpr ?s \<noteq> 0" unfolding s by simp
  have 1: "pixel_after (step r (Resize ?env) (board ?b)) x y =
     Some (if x < 3200 \<and> y < 2800 \<and> x < 1600 \<and> y < 1400 then pixels ?b x y else transparent)" for x y
    unfolding st reinit_eq [OF c nz k] unfolding s
    by (auto simp: board_def dot_bitmap_def pixel_after_def pixel_at_def)
  let ?env' = "\<lparr>devicePixelRatio = 1, clientWidth = Some 1632\<rparr>"
  let ?b' = "dot_bitmap 3200 2800 2000 2000"
  let ?s' = "handleResize ?env' ((board ?b')\<lparr>dpr := 2\<rparr>)"
  have s': "?s' = board ?b'"
    by (simp add: handleResize_def board_def)
  have st': "step r (Resize ?env') ((board ?b')\<lparr>dpr := 2\<rparr>) = reinit ?s'"
    unfolding step_def handler.simps Let_def s' by (simp add: board_def)
  have c': "canvas ?s' = Some \<lparr>bmp = ?b', ctx = new_context\<rparr>" unfolding s' by (simp add: board_def)
  have nz': "bwidth (bmp \<lparr>bmp = ?b', ctx = new_context\<rparr>) \<noteq> 0"
    "bheight (bmp \<lparr>bmp = ?b', ctx = new_context\<rparr>) \<noteq> 0"
    by (simp_all add: dot_bitmap_def)
  have k': "dpr ?s' \<noteq> 0" unfolding s' by (simp add: board_def)
  have 2: "pixel_after (step r (Resize ?env') ((board ?b')\<lparr>dpr := 2\<rparr>)) x y =
     Some (if x < 1600 \<and> y < 1400 \<and> x < 3200 \<and> y < 2800 then pixels ?b' x y else transparent)" for x y
    unfolding st' reinit_eq [OF c' nz' k'] unfolding s'
    by (auto simp: board_def dot_bitmap_def pixel_after_def pixel_at_def)
  show ?thesis
    unfolding 1 2 by (simp add: dot_bitmap_def)
qed

text \<open>The same with a rasteriser that covers nothing.\<close>

theorem rescale_moves_stroke_witness:
  "pixel_after (step (cover 0) (Resize \<lparr>devicePixelRatio = 2, clientWidth = Some 1632\<rparr>)
                  (board (dot_bitmap 1600 1400 100 100))) 100 100 = Some opaque_black
   \<and> pixel_after (step (cover 0) (Resize \<lparr>devicePixelRatio = 2, clientWidth = Some 1632\<rparr>)
                  (board (dot_bitmap 1600 1400 100 100))) 200 200 = Some transparent"
  using rescale_moves_stroke [of "cover 0"] by simp

subsection \<open>Growth\<close>

text \<open>
  C2, as stated, when two moves are handled before the next render. From a logical
  height of 400, after the pointer-down and its render, the move to (10, 210) makes the
  height 1400; the move to (10, 211) that follows it at once still tests the height 400
  of the render and adds another 1000, although 1400 - 211 is not below 200.
\<close>

theorem second_move_grows_again:
  "height (canvasSize ((board (blank 1600 400))\<lparr>canvasSize := \<lparr>width = 1600, height = 400\<rparr>\<rparr>)) = 400
   \<and> height_after (play (cover 0)
         [Dispatch (PointerDown (pointer_at 10 10)), Render,
          Dispatch (PointerMove (pointer_at 10 210))]
         (rendered ((board (blank 1600 400))\<lparr>canvasSize := \<lparr>width = 1600, height = 400\<rparr>\<rparr>)))
       = Some 1400
   \<and> \<not> (1400 - 211 < (200::real))
   \<and> height_after (play (cover 0)
         [Dispatch (PointerDown (pointer_at 10 10)), Render,
          Dispatch (PointerMove (pointer_at 10 210)),
          Dispatch (PointerMove (pointer_at 10 211))]
         (rendered ((board (blank 1600 400))\<lparr>canvasSize := \<lparr>width = 1600, height = 400\<rparr>\<rparr>)))
       = Some 2400"
proof -
  let ?s = "(board (blank 1600 400))\<lparr>canvasSize := \<lparr>width = 1600, height = 400\<rparr>\<rparr>"
  have h: "height (canvasSize ?s) = 400" by simp
  from moves_in_one_render [OF h, of "cover 0"] obtain c1 c where
    "play (cover 0) [Dispatch (PointerDown (pointer_at 10 10)), Render,
        Dispatch (PointerMove (pointer_at 10 210))] (rendered ?s) = Inr c1"
    "height (canvasSize (now c1)) = 1400"
    "play (cover 0) [Dispatch (PointerDown (pointer_at 10 10)), Render,
        Dispatch (PointerMove (pointer_at 10 210)),
        Dispatch (PointerMove (pointer_at 10 211))] (rendered ?s) = Inr c"
    "height (canvasSize (now c)) = 2400"
    by blast
  then show ?thesis using h by (simp add: height_after_def)
qed

text \<open>
  C2, amended. The growth check compares \<open>y\<close> with the logical height of the last
  render: it adds exactly 1000 to the current logical height when that height minus \<open>y\<close>
  is below 200 and leaves the current height as it is otherwise. From a height of 400,
  with a canvas that has pixels and a render after every event: pointer-down at
  (10, 10), then a move to (10, 210) gives height 1400, and the next move to (10, 211)
  leaves it at 1400. When the two moves are handled before the next render, the height
  becomes 2400.
\<close>

theorem extendIfNeeded_growth:
  "height (canvasSize (extendIfNeeded v y s)) =
      (if height (canvasSize v) - y < 200 then height (canvasSize s) + 1000
       else height (canvasSize s))
   \<and> width (canvasSize (extendIfNeeded v y s)) = width (canvasSize s)
   \<and> (height (canvasSize s) = 400 \<and> usable s \<longrightarrow>
        (\<exists>c2 c3.
            play r [Dispatch (PointerDown (pointer_at 10 10)), Render,
                    Dispatch (PointerMove (pointer_at 10 210)), Render] (rendered s) = Inr c2
          \<and> height (canvasSize (now c2)) = 1400
          \<and> play r [Dispatch (PointerMove (pointer_at 10 211)), Render] c2 = Inr c3
          \<and> height (canvasSize (now c3)) = 1400))
   \<and> (height (canvasSize s) = 400 \<longrightarrow>
        (\<exists>c. play r [Dispatch (PointerDown (pointer_at 10 10)), Render,
                      Dispatch (PointerMove (pointer_at 10 210)),
                      Dispatch (PointerMove (pointer_at 10 211))] (rendered s) = Inr c
            \<and> height (canvasSize (now c)) = 2400))"
proof -
  have 1: "height (canvasSize (extendIfNeeded v y s)) =
      (if height (canvasSize v) - y < 200 then height (canvasSize s) + 1000
       else height (canvasSize s))"
    "width (canvasSize (extendIfNeeded v y s)) = width (canvasSize s)"
    by (simp_all add: extendIfNeeded_def)
  have 2: "\<exists>c. play r [Dispatch (PointerDown (pointer_at 10 10)), Render,
                      Dispatch (PointerMove (pointer_at 10 210)),
                      Dispatch (PointerMove (pointer_at 10 211))] (rendered s) = Inr c
            \<and> height (canvasSize (now c)) = 2400" if "height (canvasSize s) = 400"
    using moves_in_one_render [OF that, of r] by blast
  show ?thesis
    using 1 2 moves_with_renders [of s r] by blast
qed

text \<open>The statement at the initial hooks with the height set to 400.\<close>

theorem extendIfNeeded_growth_witness:
  "height (canvasSize ((board (blank 1600 400))\<lparr>canvasSize := \<lparr>width = 1600, height = 400\<rparr>\<rparr>)) = 400
   \<and> usable ((board (blank 1600 400))\<lparr>canvasSize := \<lparr>width = 1600, height = 400\<rparr>\<rparr>)
   \<and> (\<exists>c2 c3.
          play (cover 255) [Dispatch (PointerDown (pointer_at 10 10)), Render,
                  Dispatch (PointerMove (pointer_at 10 210)), Render]
            (rendered ((board (blank 1600 400))\<lparr>canvasSize := \<lparr>width = 1600, height = 400\<rparr>\<rparr>)) = Inr c2
        \<and> height (canvasSize (now c2)) = 1400
        \<and> play (cover 255) [Dispatch (PointerMove (pointer_at 10 211)), Render] c2 = Inr c3
        \<and> height (canvasSize (now c3)) = 1400)"
proof -
  let ?s = "(board (blank 1600 400))\<lparr>canvasSize := \<lparr>width = 1600, height = 400\<rparr>\<rparr>"
  have h: "height (canvasSize ?s) = 400" by simp
  have u: "usable ?s" by (simp add: usable_def board_def blank_def)
  note t = extendIfNeeded_growth [of ?s 210 ?s "cover 255"]
  from t h u have "\<exists>c2 c3.
          play (cover 255) [Dispatch (PointerDown (pointer_at 10 10)), Render,
                  Dispatch (PointerMove (pointer_at 10 210)), Render] (rendered ?s) = Inr c2
        \<and> height (canvasSize (now c2)) = 1400
        \<and> play (cover 255) [Dispatch (PointerMove (pointer_at 10 211)), Render] c2 = Inr c3
        \<and> height (canvasSize (now c3)) = 1400"
    by blast
  then show ?thesis using h u by blast
qed

text \<open>
  C6. Whatever the events (pointer events, resizes, tool choices, clear, export) and
  wherever the renders fall between them, the logical height at the end of a run is at
  least the height at its start, and from a state with the sizes the component keeps
  every run reaches its end. A handler never lowers the height, whatever render it was
  created in: a resize keeps it as it is and replaces only the width, the growth check
  only adds to it, and drawing and clearing leave the logical size alone.
\<close>

theorem height_never_decreases:
  "(run r evs s = Inr s' \<longrightarrow> height (canvasSize s) \<le> height (canvasSize s'))
   \<and> (well_sized s \<longrightarrow> (\<exists>s''. run r evs s = Inr s''))
   \<and> (play r acts c = Inr c' \<longrightarrow> height (canvasSize (now c)) \<le> height (canvasSize (now c')))
   \<and> (well_sized (now c) \<longrightarrow> (\<exists>c''. play r acts c = Inr c''))
   \<and> height (canvasSize s) \<le> height (canvasSize (handler v r ev s))
   \<and> height (canvasSize (handleResize env s)) = height (canvasSize s)
   \<and> height (canvasSize s) \<le> height (canvasSize (extendIfNeeded v y s))
   \<and> width (canvasSize (extendIfNeeded v y s)) = width (canvasSize s)
   \<and> canvasSize (handleClear v s) = canvasSize s
   \<and> canvasSize (drawLine v r p q s) = canvasSize s"
proof -
  have 1: "run r evs s = Inr s' \<longrightarrow> height (canvasSize s) \<le> height (canvasSize s')"
    using run_height by blast
  have 2: "well_sized s \<longrightarrow> (\<exists>s''. run r evs s = Inr s'')"
    using run_well_sized by blast
  have 3: "height (canvasSize (handleResize env s)) = height (canvasSize s)"
    by (simp add: handleResize_def Let_def split: option.splits)
  have 4: "height (canvasSize s) \<le> height (canvasSize (extendIfNeeded v y s))"
    "width (canvasSize (extendIfNeeded v y s)) = width (canvasSize s)"
    by (simp_all add: extendIfNeeded_def)
  have 5: "canvasSize (handleClear v s) = canvasSize s"
    by (simp add: handleClear_def Let_def split: option.splits)
  have 6: "play r acts c = Inr c' \<longrightarrow> height (canvasSize (now c)) \<le> height (canvasSize (now c'))"
    using play_height by blast
  have 7: "well_sized (now c) \<longrightarrow> (\<exists>c''. play r acts c = Inr c'')"
    using play_well_sized by blast
  show ?thesis
    using 1 2 3 4 5 6 7 handler_height [of s v r ev] drawLine_fields(1) [of v r p q s] by simp
qed

text \<open>A run from the initial hooks that draws near the bottom, resizes, clears and
  exports, with a render after every event and with the renders held back.\<close>

theorem height_never_decreases_witness:
  "well_sized (board (blank 300 150))
   \<and> (\<exists>s'. run (cover 255)
              [PointerDown (pointer_at 10 10), PointerMove (pointer_at 10 1300),
               Resize \<lparr>devicePixelRatio = 2, clientWidth = Some 500\<rparr>, Clear, Export, PointerUp]
              (board (blank 300 150)) = Inr s'
          \<and> height (canvasSize (board (blank 300 150))) \<le> height (canvasSize s'))
   \<and> (\<exists>c'. play (cover 255)
              [Dispatch (PointerDown (pointer_at 10 10)), Render,
               Dispatch (PointerMove (pointer_at 10 1300)), Dispatch (PointerMove (pointer_at 10 1301)),
               Dispatch (Resize \<lparr>devicePixelRatio = 2, clientWidth = Some 500\<rparr>), Dispatch Clear,
               Render, Dispatch Export, Dispatch PointerUp]
              (rendered (board (blank 300 150))) = Inr c'
          \<and> height (canvasSize (board (blank 300 150))) \<le> height (canvasSize (now c')))"
proof -
  let ?s = "board (blank 300 150)"
  let ?evs = "[PointerDown (pointer_at 10 10), PointerMove (pointer_at 10 1300),
               Resize \<lparr>devicePixelRatio = 2, clientWidth = Some 500\<rparr>, Clear, Export, PointerUp]"
  let ?acts = "[Dispatch (PointerDown (pointer_at 10 10)), Render,
               Dispatch (PointerMove (pointer_at 10 1300)), Dispatch (PointerMove (pointer_at 10 1301)),
               Dispatch (Resize \<lparr>devicePixelRatio = 2, clientWidth = Some 500\<rparr>), Dispatch Clear,
               Render, Dispatch Export, Dispatch PointerUp]"
  have w: "well_sized ?s" by (simp add: well_sized_def usable_def board_def blank_def)
  then have w': "well_sized (now (rendered ?s))" by (simp add: rendered_def)
  have n: "now (rendered ?s) = ?s" by (simp add: rendered_def)
  note t = height_never_decreases [where r = "cover 255" and evs = ?evs and s = ?s
      and acts = ?acts and c = "rendered ?s"]
  from t w obtain s' where s': "run (cover 255) ?evs ?s = Inr s'" by blast
  from t w' obtain c' where c': "play (cover 255) ?acts (rendered ?s) = Inr c'" by blast
  from height_never_decreases [where r = "cover 255" and evs = ?evs and s = ?s and s' = s'
      and acts = ?acts and c = "rendered ?s" and c' = c'] s' c'
  have "height (canvasSize ?s) \<le> height (canvasSize s')"
    "height (canvasSize (now (rendered ?s))) \<le> height (canvasSize (now c'))"
    by blast+
  with s' c' w show ?thesis unfolding n by blast
qed

subsection \<open>Pointer sessions\<close>




subsection \<open>Resize\<close>


text \<open>
  C8, as stated, at a resize that reports scale factor 0 and container width 0 while
  the state has scale factor 2 and logical width 1600: the handler does not keep them,
  the scale factor becomes 1 and the width 800.
\<close>

theorem resize_nonpositive_not_ignored:
  "devicePixelRatio \<lparr>devicePixelRatio = 0, clientWidth = Some 0\<rparr> \<le> 0
   \<and> clientWidth \<lparr>devicePixelRatio = 0, clientWidth = Some 0\<rparr> = Some 0
   \<and> dpr ((board (blank 3200 2800))\<lparr>dpr := 2\<rparr>) = 2
   \<and> dpr (handleResize \<lparr>devicePixelRatio = 0, clientWidth = Some 0\<rparr>
            ((board (blank 3200 2800))\<lparr>dpr := 2\<rparr>)) = 1
   \<and> width (canvasSize ((board (blank 3200 2800))\<lparr>dpr := 2\<rparr>)) = 1600
   \<and> width (canvasSize (handleResize \<lparr>devicePixelRatio = 0, clientWidth = Some 0\<rparr>
            ((board (blank 3200 2800))\<lparr>dpr := 2\<rparr>))) = 800
   \<and> handleResize \<lparr>devicePixelRatio = 0, clientWidth = Some 0\<rparr>
            ((board (blank 3200 2800))\<lparr>dpr := 2\<rparr>) \<noteq> (board (blank 3200 2800))\<lparr>dpr := 2\<rparr>"
proof -
  let ?s = "(board (blank 3200 2800))\<lparr>dpr := 2\<rparr>"
  let ?env = "\<lparr>devicePixelRatio = 0, clientWidth = Some 0\<rparr>"
  have 1: "dpr (handleResize ?env ?s) = 1" by (simp add: handleResize_def)
  have 2: "dpr ?s = 2" by simp
  have 3: "width (canvasSize (handleResize ?env ?s)) = 800" by (simp add: handleResize_def)
  have 4: "width (canvasSize ?s) = 1600" by (simp add: board_def)
  have "handleResize ?env ?s \<noteq> ?s"
  proof
    assume "handleResize ?env ?s = ?s"
    then have "dpr (handleResize ?env ?s) = dpr ?s" by simp
    then show False unfolding 1 2 by simp
  qed
  then show ?thesis using 1 2 3 4 by simp
qed

text \<open>
  C8, amended. \<open>handleResize\<close> never keeps the previous scale factor or width: the new
  scale factor is the reported one raised to at least 1 (1 for every non-positive
  report), the new logical width is the container width minus 32 raised to at least 800
  (800 for every non-positive container width), and without a container the logical size
  is kept. The logical height is always kept. No error is raised: with a canvas that has
  pixels the event runs to its end.
\<close>

theorem resize_clamps:
  "dpr (handleResize env s) = max (if devicePixelRatio env = 0 then 1 else devicePixelRatio env) 1
   \<and> 1 \<le> dpr (handleResize env s)
   \<and> (devicePixelRatio env \<le> 0 \<longrightarrow> dpr (handleResize env s) = 1)
   \<and> (\<forall>cw. clientWidth env = Some cw \<longrightarrow>
          width (canvasSize (handleResize env s)) = max 800 (real_of_int cw - 32)
        \<and> 800 \<le> width (canvasSize (handleResize env s))
        \<and> (cw \<le> 0 \<longrightarrow> width (canvasSize (handleResize env s)) = 800))
   \<and> (clientWidth env = None \<longrightarrow> canvasSize (handleResize env s) = canvasSize s)
   \<and> height (canvasSize (handleResize env s)) = height (canvasSize s)
   \<and> (usable s \<longrightarrow>
        (\<exists>s'. step r (Resize env) s = Inr s'
            \<and> dpr s' = dpr (handleResize env s)
            \<and> canvasSize s' = canvasSize (handleResize env s)))"
proof -
  have 1: "dpr (handleResize env s) = max (if devicePixelRatio env = 0 then 1 else devicePixelRatio env) 1"
    by (simp add: handleResize_def Let_def split: option.splits)
  have 2: "\<forall>cw. clientWidth env = Some cw \<longrightarrow>
          width (canvasSize (handleResize env s)) = max 800 (real_of_int cw - 32)"
    by (simp add: handleResize_def Let_def)
  have 3: "clientWidth env = None \<longrightarrow> canvasSize (handleResize env s) = canvasSize s"
    by (simp add: handleResize_def Let_def)
  have 4: "height (canvasSize (handleResize env s)) = height (canvasSize s)"
    by (simp add: handleResize_def Let_def split: option.splits)
  have 5: "\<exists>s'. step r (Resize env) s = Inr s' \<and> dpr s' = dpr (handleResize env s)
            \<and> canvasSize s' = canvasSize (handleResize env s)" if "usable s"
  proof (cases "step r (Resize env) s = Inr (handleResize env s)")
    case True
    then show ?thesis by simp
  next
    case False
    then have st: "step r (Resize env) s = reinit (handleResize env s)"
      unfolding step_def Let_def by (simp split: if_splits)
    have "usable (handleResize env s)" using that usable_handler [of s r "Resize env" s] by simp
    then obtain c where "reinit (handleResize env s) = Inr ((handleResize env s)\<lparr>canvas := c\<rparr>)"
      using reinit_usable by blast
    then show ?thesis unfolding st by simp
  qed
  show ?thesis using 1 2 3 4 5 by (auto simp: max_def)
qed

text \<open>The statement at a resize that reports scale factor -1 and container width -5.\<close>

theorem resize_clamps_witness:
  "devicePixelRatio \<lparr>devicePixelRatio = - 1, clientWidth = Some (- 5)\<rparr> \<le> 0
   \<and> usable (board (blank 300 150))
   \<and> dpr (handleResize \<lparr>devicePixelRatio = - 1, clientWidth = Some (- 5)\<rparr> (board (blank 300 150))) = 1
   \<and> width (canvasSize (handleResize \<lparr>devicePixelRatio = - 1, clientWidth = Some (- 5)\<rparr> (board (blank 300 150)))) = 800
   \<and> (\<exists>s'. step (cover 0) (Resize \<lparr>devicePixelRatio = - 1, clientWidth = Some (- 5)\<rparr>)
              (board (blank 300 150)) = Inr s'
          \<and> dpr s' = 1 \<and> width (canvasSize s') = 800)"
proof -
  let ?env = "\<lparr>devicePixelRatio = - 1, clientWidth = Some (- 5)\<rparr>"
  let ?s = "board (blank 300 150)"
  note t = resize_clamps [of ?env ?s "cover 0"]
  have u: "usable ?s" by (simp add: usable_def board_def blank_def)
  have d: "devicePixelRatio ?env \<le> 0" and cw: "clientWidth ?env = Some (- 5)" by simp_all
  from t d have 1: "dpr (handleResize ?env ?s) = 1" by blast
  from t cw have 2: "width (canvasSize (handleResize ?env ?s)) = 800" by simp
  from t u obtain s' where "step (cover 0) (Resize ?env) ?s = Inr s'"
    "dpr s' = dpr (handleResize ?env ?s)" "canvasSize s' = canvasSize (handleResize ?env ?s)"
    by blast
  then show ?thesis using 1 2 u d by simp
qed


subsection \<open>Strokes\<close>

text \<open>
  C9. The line width \<open>drawLine\<close> strokes with is the requested size clamped to [1, 64]: a
  size between 1 and 64 is kept, every size above 64 gives 64 and every size below 1
  gives 1. It is the width of the geometry the rasteriser is given, and every pixel of
  the canvas is composited with the stroke colour weighted by the coverage of that
  geometry. \<open>drawLine\<close> does what it would with the size already clamped: a size of 200
  draws what 64 draws and a size of 0 draws what 1 draws.
\<close>

theorem drawLine_clamps_width:
  "lineWidth (pen_state v d) = clamp (size_px v) 1 64
   \<and> clamp n 1 64 = (if n < 1 then 1 else if 64 < n then 64 else n)
   \<and> (1 \<le> size_px v \<and> size_px v \<le> 64 \<longrightarrow> lineWidth (pen_state v d) = size_px v)
   \<and> (64 < size_px v \<longrightarrow> lineWidth (pen_state v d) = 64)
   \<and> (size_px v < 1 \<longrightarrow> lineWidth (pen_state v d) = 1)
   \<and> 1 \<le> lineWidth (pen_state v d) \<and> lineWidth (pen_state v d) \<le> 64
   \<and> (\<forall>c. canvas s = Some c \<longrightarrow>
         (\<exists>c'. canvas (drawLine v r p q s) = Some c'
             \<and> bmp c' = stroke r (pen_state v (cur (ctx c))) p q (bmp c)
             \<and> geom (pen_state v (cur (ctx c))) p q = seg_geom v (transform (cur (ctx c))) p q
             \<and> g_width (seg_geom v (transform (cur (ctx c))) p q) = clamp (size_px v) 1 64
             \<and> (\<forall>x<bwidth (bmp c). \<forall>y<bheight (bmp c).
                   pixels (bmp c') x y =
                     composite (globalCompositeOperation (pen_state v (cur (ctx c))))
                       (scale_px (r (seg_geom v (transform (cur (ctx c))) p q) x y)
                          (premultiply (strokeStyle (pen_state v (cur (ctx c))))))
                       (pixels (bmp c) x y))))
   \<and> drawLine v r p q s = drawLine (v\<lparr>size_px := clamp (size_px v) 1 64\<rparr>) r p q s
   \<and> clamp 200 1 64 = 64 \<and> clamp 0 1 64 = 1
   \<and> drawLine (v\<lparr>size_px := 200\<rparr>) r p q s = drawLine (v\<lparr>size_px := 64\<rparr>) r p q s
   \<and> drawLine (v\<lparr>size_px := 0\<rparr>) r p q s = drawLine (v\<lparr>size_px := 1\<rparr>) r p q s"
proof -
  have a: "lineWidth (pen_state v d) = clamp (size_px v) 1 64" by (rule lineWidth_pen_state)
  have a': "clamp n 1 64 = (if n < 1 then 1 else if 64 < n then 64 else n)" by (rule clamp_cases)
  have b: "\<forall>c. canvas s = Some c \<longrightarrow>
         (\<exists>c'. canvas (drawLine v r p q s) = Some c'
             \<and> bmp c' = stroke r (pen_state v (cur (ctx c))) p q (bmp c)
             \<and> geom (pen_state v (cur (ctx c))) p q = seg_geom v (transform (cur (ctx c))) p q
             \<and> g_width (seg_geom v (transform (cur (ctx c))) p q) = clamp (size_px v) 1 64
             \<and> (\<forall>x<bwidth (bmp c). \<forall>y<bheight (bmp c).
                   pixels (bmp c') x y =
                     composite (globalCompositeOperation (pen_state v (cur (ctx c))))
                       (scale_px (r (seg_geom v (transform (cur (ctx c))) p q) x y)
                          (premultiply (strokeStyle (pen_state v (cur (ctx c))))))
                       (pixels (bmp c) x y)))"
  proof (intro allI impI)
    fix c assume c: "canvas s = Some c"
    from drawLine_bmp [OF c, of v r p q] obtain c' where
      c': "canvas (drawLine v r p q s) = Some c'"
        "bmp c' = stroke r (pen_state v (cur (ctx c))) p q (bmp c)"
      by blast
    have "geom (pen_state v (cur (ctx c))) p q = seg_geom v (transform (cur (ctx c))) p q"
      by (rule geom_pen_state)
    moreover have "g_width (seg_geom v (transform (cur (ctx c))) p q) = clamp (size_px v) 1 64"
      by (simp add: seg_geom_def)
    moreover have "\<forall>x<bwidth (bmp c). \<forall>y<bheight (bmp c).
                   pixels (bmp c') x y =
                     composite (globalCompositeOperation (pen_state v (cur (ctx c))))
                       (scale_px (r (seg_geom v (transform (cur (ctx c))) p q) x y)
                          (premultiply (strokeStyle (pen_state v (cur (ctx c))))))
                       (pixels (bmp c) x y)"
      unfolding c'(2) using stroke_pixel by blast
    ultimately show "\<exists>c'. canvas (drawLine v r p q s) = Some c'
             \<and> bmp c' = stroke r (pen_state v (cur (ctx c))) p q (bmp c)
             \<and> geom (pen_state v (cur (ctx c))) p q = seg_geom v (transform (cur (ctx c))) p q
             \<and> g_width (seg_geom v (transform (cur (ctx c))) p q) = clamp (size_px v) 1 64
             \<and> (\<forall>x<bwidth (bmp c). \<forall>y<bheight (bmp c).
                   pixels (bmp c') x y =
                     composite (globalCompositeOperation (pen_state v (cur (ctx c))))
                       (scale_px (r (seg_geom v (transform (cur (ctx c))) p q) x y)
                          (premultiply (strokeStyle (pen_state v (cur (ctx c))))))
                       (pixels (bmp c) x y))"
      using c' by blast
  qed
  have c: "drawLine v r p q s = drawLine (v\<lparr>size_px := clamp (size_px v) 1 64\<rparr>) r p q s"
    by (rule drawLine_size [symmetric]) (rule clamp_idem)
  have d: "clamp 200 1 64 = 64" "clamp 0 1 64 = 1" by (simp_all add: clamp_def)
  have e: "drawLine (v\<lparr>size_px := 200\<rparr>) r p q s = drawLine (v\<lparr>size_px := 64\<rparr>) r p q s"
    using drawLine_size [of 200 "v\<lparr>size_px := 64\<rparr>" r p q s] by (simp add: clamp_def)
  have f: "drawLine (v\<lparr>size_px := 0\<rparr>) r p q s = drawLine (v\<lparr>size_px := 1\<rparr>) r p q s"
    using drawLine_size [of 0 "v\<lparr>size_px := 1\<rparr>" r p q s] by (simp add: clamp_def)
  have g: "(1 \<le> size_px v \<and> size_px v \<le> 64 \<longrightarrow> lineWidth (pen_state v d) = size_px v)
     \<and> (64 < size_px v \<longrightarrow> lineWidth (pen_state v d) = 64)
     \<and> (size_px v < 1 \<longrightarrow> lineWidth (pen_state v d) = 1)"
    unfolding a clamp_cases by auto
  show ?thesis
    using a a' b c d e f g clamp_bounds [of "size_px v"] by (simp only: simp_thms) simp
qed

text \<open>The statement at size 200 on a 2 by 3 canvas.\<close>

theorem drawLine_clamps_width_witness:
  "64 < size_px ((board (blank 2 3))\<lparr>size_px := 200\<rparr>)
   \<and> lineWidth (pen_state ((board (blank 2 3))\<lparr>size_px := 200\<rparr>) default_state) = 64
   \<and> (\<exists>c'. canvas (drawLine ((board (blank 2 3))\<lparr>size_px := 200\<rparr>) (cover 255) (0, 0) (1, 1)
                      (board (blank 2 3))) = Some c'
          \<and> g_width (seg_geom ((board (blank 2 3))\<lparr>size_px := 200\<rparr>) 1 (0, 0) (1, 1)) = 64)"
proof -
  let ?v = "(board (blank 2 3))\<lparr>size_px := 200\<rparr>"
  let ?s = "board (blank 2 3)"
  let ?c = "\<lparr>bmp = blank 2 3, ctx = new_context\<rparr>"
  have c: "canvas ?s = Some ?c" by (simp add: board_def)
  have big: "64 < size_px ?v" by simp
  note t = drawLine_clamps_width [where v = ?v and d = default_state and r = "cover 255"
      and p = "(0, 0)" and q = "(1, 1)" and s = ?s]
  have w: "clamp (size_px ?v) 1 64 = 64" by (simp add: clamp_def)
  from t big have 1: "lineWidth (pen_state ?v default_state) = 64" by blast
  from t c obtain c' where "canvas (drawLine ?v (cover 255) (0, 0) (1, 1) ?s) = Some c'"
    "g_width (seg_geom ?v (transform (cur (ctx ?c))) (0, 0) (1, 1)) = clamp (size_px ?v) 1 64"
    by blast
  then show ?thesis using 1 big unfolding w by (simp add: new_context_def default_state_def)
qed



text \<open>
  C4, as stated, for a stroke of size 1 along a pixel boundary. On an empty 1600 by 1400
  canvas at scale 1 the segment from (90, 100) to (110, 100) with line width 1 covers
  the band from y = 99.5 to y = 100.5, half of pixel (100, 100). The pen stroke in the
  opaque initial colour leaves ink there (alpha 128 of 255), and the eraser stroke along
  the same path with the same size leaves ink as well (alpha 64), not alpha 0.
\<close>

theorem pen_then_eraser_fringe:
  "alpha (color ((board (blank 1600 1400))\<lparr>size_px := 1\<rparr>)) = 255
   \<and> \<not> inked ((board (blank 1600 1400))\<lparr>size_px := 1\<rparr>) 100 100
   \<and> inked (drawPath ((board (blank 1600 1400))\<lparr>size_px := 1\<rparr>) band_raster (90, 100) [(110, 100)]
               ((board (blank 1600 1400))\<lparr>size_px := 1\<rparr>)) 100 100
   \<and> inked (drawPath ((board (blank 1600 1400))\<lparr>size_px := 1, tool := Eraser\<rparr>) band_raster
               (90, 100) [(110, 100)]
               (drawPath ((board (blank 1600 1400))\<lparr>size_px := 1\<rparr>) band_raster (90, 100) [(110, 100)]
                  ((board (blank 1600 1400))\<lparr>size_px := 1\<rparr>))) 100 100"
proof -
  let ?s = "(board (blank 1600 1400))\<lparr>size_px := 1\<rparr>"
  let ?e = "(board (blank 1600 1400))\<lparr>size_px := 1, tool := Eraser\<rparr>"
  let ?c = "\<lparr>bmp = blank 1600 1400, ctx = new_context\<rparr>"
  have c: "canvas ?s = Some ?c" and k: "stack (ctx ?c) = []"
    by (simp_all add: board_def new_context_def)
  have xy: "(100::nat) < bwidth (bmp ?c)" "(100::nat) < bheight (bmp ?c)" by (simp_all add: blank_def)
  have t: "tool ?s = Pen" "alpha (color ?s) = 255" "tool ?e = Eraser" by (simp_all add: board_def)
  have tr: "transform (cur (ctx ?c)) = 1" by (simp add: new_context_def default_state_def)
  have a0: "alpha (pixels (bmp ?c) 100 100) = 0" by (simp add: blank_def transparent_def)
  have cov: "band_raster (seg_geom ?s 1 (90, 100) (110, 100)) 100 100 = 128"
    "band_raster (seg_geom ?e 1 (90, 100) (110, 100)) 100 100 = 128"
    by (simp_all add: band_raster_def seg_geom_def clamp_def overlap_def Let_def)
  from drawLine_at [OF c k xy, of ?s band_raster "(90, 100)" "(110, 100)"]
  obtain c1 where c1: "canvas (drawLine ?s band_raster (90, 100) (110, 100) ?s) = Some c1"
    "stack (ctx c1) = []" "transform (cur (ctx c1)) = 1"
    "bwidth (bmp c1) = bwidth (bmp ?c)" "bheight (bmp c1) = bheight (bmp ?c)"
    "alpha (pixels (bmp c1) 100 100) = 128"
    unfolding tr cov a0 using t(1,2) by (auto simp: mul255_def)
  have xy1: "(100::nat) < bwidth (bmp c1)" "(100::nat) < bheight (bmp c1)"
    using c1(4,5) xy by simp_all
  from drawLine_at [OF c1(1,2) xy1, of ?e band_raster "(90, 100)" "(110, 100)"]
  obtain c2 where c2: "canvas (drawLine ?e band_raster (90, 100) (110, 100)
        (drawLine ?s band_raster (90, 100) (110, 100) ?s)) = Some c2"
    "bwidth (bmp c2) = bwidth (bmp c1)" "bheight (bmp c2) = bheight (bmp c1)"
    "alpha (pixels (bmp c2) 100 100) = 64"
    unfolding c1(3,6) cov using t(3) by (auto simp: mul255_def)
  have 0: "\<not> inked ?s 100 100"
    using c a0 xy by (simp add: inked_def pixel_at_def)
  have 1: "inked (drawPath ?s band_raster (90, 100) [(110, 100)] ?s) 100 100"
    using c1 xy1 by (simp add: inked_def pixel_at_def)
  have 2: "inked (drawPath ?e band_raster (90, 100) [(110, 100)]
      (drawPath ?s band_raster (90, 100) [(110, 100)] ?s)) 100 100"
    using c2 xy1 by (simp add: inked_def pixel_at_def)
  show ?thesis using t(2) 0 1 2 by simp
qed

text \<open>
  C4, amended. A stroke along a path is the chain of \<open>drawLine\<close> calls through its
  points. With nothing saved in the context, at every pixel of the canvas that some
  segment of the stroke covers wholly (coverage 255 for the geometry \<open>drawLine\<close> strokes:
  the context's transform, the clamped size, round cap and join, the two end points): a
  pen stroke along the path followed by an eraser stroke of the same size along the same
  path leaves alpha 0, whatever was there before. The order matters: eraser first and
  then the pen in a fully opaque colour leaves the pixel with alpha 255 (the coverage of
  the rasteriser being at most 255).
\<close>

theorem pen_then_eraser_clears:
  assumes "canvas s = Some c" and "stack (ctx c) = []"
    and "x < bwidth (bmp c)" and "y < bheight (bmp c)"
    and "wholly_covered r v (transform (cur (ctx c))) p qs x y"
  shows "canvas_alpha
           (drawPath (v\<lparr>tool := Eraser\<rparr>) r p qs (drawPath (v\<lparr>tool := Pen, color := col\<rparr>) r p qs s))
           x y = Some 0
         \<and> (alpha col = 255 \<and> (\<forall>g x y. r g x y \<le> 255) \<longrightarrow>
              canvas_alpha
                (drawPath (v\<lparr>tool := Pen, color := col\<rparr>) r p qs
                   (drawPath (v\<lparr>tool := Eraser\<rparr>) r p qs s))
                x y = Some 255)"
proof (intro conjI impI)
  let ?vp = "v\<lparr>tool := Pen, color := col\<rparr>"
  let ?ve = "v\<lparr>tool := Eraser\<rparr>"
  let ?t = "transform (cur (ctx c))"
  have cp: "wholly_covered r ?vp t p qs x y = wholly_covered r v t p qs x y" for t
    by (rule wholly_covered_size) simp
  have ce: "wholly_covered r ?ve t p qs x y = wholly_covered r v t p qs x y" for t
    by (rule wholly_covered_size) simp
  {
    from drawPath_at [OF assms(1-4), of ?vp r p qs] obtain c1 where
      c1: "canvas (drawPath ?vp r p qs s) = Some c1" "stack (ctx c1) = []"
        "transform (cur (ctx c1)) = ?t"
        "bwidth (bmp c1) = bwidth (bmp c)" "bheight (bmp c1) = bheight (bmp c)"
      by blast
    have xy: "x < bwidth (bmp c1)" "y < bheight (bmp c1)" using c1(4,5) assms(3,4) by simp_all
    have "wholly_covered r ?ve (transform (cur (ctx c1))) p qs x y"
      unfolding c1(3) ce by (rule assms(5))
    then show "canvas_alpha (drawPath ?ve r p qs (drawPath ?vp r p qs s)) x y = Some 0"
      using erase_path [OF _ c1(1,2) xy, of ?ve r p qs] by simp
  }
  {
    assume h: "alpha col = 255 \<and> (\<forall>g x y. r g x y \<le> 255)"
    from drawPath_at [OF assms(1-4), of ?ve r p qs] obtain c1 where
      c1: "canvas (drawPath ?ve r p qs s) = Some c1" "stack (ctx c1) = []"
        "transform (cur (ctx c1)) = ?t"
        "bwidth (bmp c1) = bwidth (bmp c)" "bheight (bmp c1) = bheight (bmp c)"
      by blast
    have xy: "x < bwidth (bmp c1)" "y < bheight (bmp c1)" using c1(4,5) assms(3,4) by simp_all
    have "wholly_covered r ?vp (transform (cur (ctx c1))) p qs x y"
      unfolding c1(3) cp by (rule assms(5))
    then show "canvas_alpha (drawPath ?vp r p qs (drawPath ?ve r p qs s)) x y = Some 255"
      using pen_path [OF _ _ _ c1(1,2) xy, of ?vp r p qs] h by simp
  }
qed

text \<open>The statement for a stroke of size 4 through (90, 100), (110, 100) and (130, 100)
  on an empty 1600 by 1400 canvas, at pixel (100, 100), which the first segment covers
  wholly.\<close>

theorem pen_then_eraser_clears_witness:
  "canvas (board (blank 1600 1400)) = Some \<lparr>bmp = blank 1600 1400, ctx = new_context\<rparr>
   \<and> stack new_context = []
   \<and> wholly_covered band_raster (board (blank 1600 1400)) 1 (90, 100) [(110, 100), (130, 100)] 100 100
   \<and> canvas_alpha
        (drawPath ((board (blank 1600 1400))\<lparr>tool := Eraser\<rparr>) band_raster (90, 100)
           [(110, 100), (130, 100)]
           (drawPath ((board (blank 1600 1400))\<lparr>tool := Pen, color := opaque_black\<rparr>) band_raster
              (90, 100) [(110, 100), (130, 100)] (board (blank 1600 1400))))
        100 100 = Some 0"
proof -
  let ?s = "board (blank 1600 1400)"
  let ?c = "\<lparr>bmp = blank 1600 1400, ctx = new_context\<rparr>"
  have c: "canvas ?s = Some ?c" by (simp add: board_def)
  have k: "stack (ctx ?c) = []" by (simp add: new_context_def)
  have k': "stack new_context = []" by (simp add: new_context_def)
  have xy: "(100::nat) < bwidth (bmp ?c)" "(100::nat) < bheight (bmp ?c)" by (simp_all add: blank_def)
  have tr: "transform (cur (ctx ?c)) = 1" by (simp add: new_context_def default_state_def)
  have cov: "wholly_covered band_raster ?s 1 (90, 100) [(110, 100), (130, 100)] 100 100"
    by (simp add: wholly_covered_def band_raster_def seg_geom_def clamp_def overlap_def Let_def
        board_def)
  then have cov': "wholly_covered band_raster ?s (transform (cur (ctx ?c))) (90, 100)
      [(110, 100), (130, 100)] 100 100"
    unfolding tr .
  note t = pen_then_eraser_clears [where r = band_raster and s = ?s and c = ?c and v = ?s
      and x = 100 and y = 100 and p = "(90, 100)" and qs = "[(110, 100), (130, 100)]"
      and col = opaque_black]
  from t [OF c k xy cov'] c k' cov show ?thesis by blast
qed

end
